theory Spec2Isabelle
  imports
    Complex_Main
    "HOL-Library.AList"
    "HOL-Library.Char_ord"
    "HOL-Library.List_Lexorder"
    "HOL-Library.Product_Lexorder"
    "HOL-Library.Sublist"
begin

section \<open>Python values\<close>

text \<open>
  The model follows \<^verbatim>\<open>src/adeft/discover.py\<close>.

  \<^item> A Python \<^verbatim>\<open>dict\<close> is an association list in insertion order with distinct keys:
    \<^verbatim>\<open>d[k] = v\<close> is \<open>AList.update k v d\<close> (an existing key keeps its place, a new key goes
    to the end), \<^verbatim>\<open>k in d\<close> is \<open>map_of d k \<noteq> None\<close>.
  \<^item> A tuple or list of tokens is a \<open>string list\<close>; \<^verbatim>\<open>t[::-1]\<close> is \<open>rev t\<close>.
  \<^item> Python integers are \<open>int\<close>. Python floats are modelled by exact rationals: every
    result below is about the values the arithmetic defines, not about rounding.
  \<^item> An exception is a value of type \<open>error\<close>; a function that can raise returns
    \<open>error + 'a\<close>, with \<open>Inl\<close> the exception.
\<close>

datatype error =
    AttributeError
  | ZeroDivisionError
  | IndexError
  | ValueError
  | InvalidReference

text \<open>
  \<open>InvalidReference\<close> is not a Python exception. The loops of the source hold references
  to trie nodes; the model holds the path of tokens from the root instead, and
  \<open>InvalidReference\<close> is what a loop returns when a path addresses no node. The paths the
  loops build always address a node (\<open>bfs_children_returns\<close>, \<open>descendent_loop_returns\<close>
  and \<open>update_inv\<close> below).
\<close>

section \<open>The trie node\<close>

text \<open>
  \<^verbatim>\<open>_TrieNode.parent\<close> is only ever compared with \<^verbatim>\<open>None\<close> (\<^verbatim>\<open>is_root\<close>) and followed
  upwards by \<^verbatim>\<open>_propagate_scores\<close>. The model keeps what those two uses can see:
  \<^item> \<open>ParentNone\<close>: \<^verbatim>\<open>parent is None\<close>;
  \<^item> \<open>ParentOwner\<close>: \<^verbatim>\<open>parent\<close> is the node whose \<^verbatim>\<open>children\<close> dict holds this node;
  \<^item> \<open>ParentCopy\<close>: \<^verbatim>\<open>parent\<close> is a node of the deep copy made by \<^verbatim>\<open>update\<close>, which is not
    part of this trie. \<^verbatim>\<open>update\<close> stores a node of the copy under a node of the receiving
    trie with \<^verbatim>\<open>left.children[token] = child\<close> and leaves \<^verbatim>\<open>child.parent\<close> as it was.
\<close>

datatype parent_ref = ParentNone | ParentOwner | ParentCopy

text \<open>
  The slots \<^verbatim>\<open>count\<close>, \<^verbatim>\<open>sum_ft\<close> and \<^verbatim>\<open>sum_ft2\<close> are assigned by \<^verbatim>\<open>__init__\<close> only when
  the longform is not empty; \<open>None\<close> is the unassigned slot, and reading it raises
  \<^verbatim>\<open>AttributeError\<close>. The six fields of the alignment scorer other than
  \<^verbatim>\<open>alignment_score\<close> are one opaque value \<open>align_state\<close>.
\<close>

record 'a node_info =
  longform :: "string list"
  count :: "int option"
  sum_ft :: "int option"
  sum_ft2 :: "int option"
  score :: rat
  parent :: parent_ref
  alignment_score :: rat
  align_state :: 'a
  best_ancestor_score :: rat
  best_descendent_score :: rat

datatype 'a node = Node (info: "'a node_info") (children: "(string \<times> 'a node) list")

section \<open>The collaborators that are not part of the module\<close>

text \<open>
  \<^verbatim>\<open>adeft.nlp.stem.WatchfulStemmer\<close>, \<^verbatim>\<open>adeft.util.get_candidate_fragments\<close>,
  \<^verbatim>\<open>adeft.util.get_candidate\<close>, \<^verbatim>\<open>adeft.score.AlignmentBasedScorer\<close> and \<^verbatim>\<open>numpy.exp\<close> are
  imported by the module and are parameters of the model. \<open>'s\<close> is the state of the
  stemmer, \<open>'a\<close> the alignment state of a node.
\<close>

record ('a, 's) collaborators =
  stemmer_new :: 's
  stem :: "'s \<Rightarrow> string \<Rightarrow> string \<times> 's"
  most_frequent :: "'s \<Rightarrow> string \<Rightarrow> string"
  counts_update :: "'s \<Rightarrow> 's \<Rightarrow> 's"
  stemmer_dump :: "'s \<Rightarrow> 's"
  stemmer_load :: "'s \<Rightarrow> 's"
  get_candidate_fragments :: "string \<Rightarrow> string \<Rightarrow> int \<Rightarrow> string list"
  get_candidate :: "string \<Rightarrow> string list"
  next_score :: "string \<Rightarrow> string \<Rightarrow> rat \<times> 'a \<Rightarrow> rat \<times> 'a"
  align_new :: "nat option \<Rightarrow> 'a"
  np_exp :: "rat \<Rightarrow> rat"

text \<open>
  \<^verbatim>\<open>_TrieNode.__init__(longform, parent, shortform)\<close>. \<open>align_new\<close> gets the length of the
  shortform when one is passed (the root), \<open>None\<close> otherwise.
\<close>

definition TrieNode_init ::
  "('a, 's) collaborators \<Rightarrow> string list \<Rightarrow> parent_ref \<Rightarrow> string option \<Rightarrow> 'a node" where
  "TrieNode_init ext lf par sf =
     Node \<lparr> longform = lf,
            count = (if lf \<noteq> [] then Some 1 else None),
            sum_ft = (if lf \<noteq> [] then Some 0 else None),
            sum_ft2 = (if lf \<noteq> [] then Some 0 else None),
            score = (if lf \<noteq> [] then 1 else - 1),
            parent = par,
            alignment_score = 0,
            align_state = align_new ext (map_option length sf),
            best_ancestor_score = - 1,
            best_descendent_score = - 1 \<rparr> []"

definition is_root :: "'a node \<Rightarrow> bool" where
  "is_root self = (parent (info self) = ParentNone)"

text \<open>\<^verbatim>\<open>increment_count\<close>: \<^verbatim>\<open>self.count += increment; self.score += increment\<close>.\<close>

definition increment_count :: "'a node \<Rightarrow> int \<Rightarrow> error + 'a node" where
  "increment_count self increment =
     (case count (info self) of
        None \<Rightarrow> Inl AttributeError
      | Some c \<Rightarrow>
          Inr (Node ((info self)\<lparr> count := Some (c + increment),
                                 score := score (info self) + of_int increment \<rparr>)
                    (children self)))"

text \<open>
  \<^verbatim>\<open>update_likelihood(count, increment)\<close>. The last line divides by the new \<^verbatim>\<open>sum_ft\<close>
  without a test, so it raises \<^verbatim>\<open>ZeroDivisionError\<close> when that is zero.
\<close>

definition update_likelihood :: "'a node \<Rightarrow> int \<Rightarrow> int \<Rightarrow> error + 'a node" where
  "update_likelihood self cnt increment =
     (case sum_ft (info self) of
        None \<Rightarrow> Inl AttributeError
      | Some sf \<Rightarrow>
         (case sum_ft2 (info self) of
            None \<Rightarrow> Inl AttributeError
          | Some sf2 \<Rightarrow>
             (let score1 = score (info self) + (if sf \<noteq> 0 then of_int sf2 / of_int sf else 0);
                  sf' = sf + increment;
                  sf2' = sf2 + (2 * cnt * increment - increment ^ 2)
              in if sf' = 0 then Inl ZeroDivisionError
                 else Inr (Node ((info self)\<lparr> sum_ft := Some sf', sum_ft2 := Some sf2',
                                   score := score1 - of_int sf2' / of_int sf' \<rparr>)
                                (children self)))))"

text \<open>
  \<^verbatim>\<open>scaled_score(smoothing_param)\<close>.
\<close>

definition scaled_score :: "'a node \<Rightarrow> rat \<Rightarrow> rat" where
  "scaled_score self smoothing_param =
     (let numerator = score (info self) - 1;
          denominator = max (best_ancestor_score (info self)) (best_descendent_score (info self))
                        + (smoothing_param - 1)
      in if denominator \<le> 0 then 0 else numerator / denominator)"

section \<open>The miner\<close>

record ('a, 's) miner =
  shortform :: string
  internal_trie :: "'a node"
  longforms :: "(string list \<times> rat) list"
  stemmer :: 's
  window :: int
  alignment_scores_computed :: bool
  scores_propagated :: bool

text \<open>\<^verbatim>\<open>AdeftMiner.__init__(shortform, window)\<close>.\<close>

definition AdeftMiner_init ::
  "('a, 's) collaborators \<Rightarrow> string \<Rightarrow> int \<Rightarrow> ('a, 's) miner" where
  "AdeftMiner_init ext sf w =
     \<lparr> shortform = sf,
       internal_trie = TrieNode_init ext [] ParentNone (Some sf),
       longforms = [],
       stemmer = stemmer_new ext,
       window = w,
       alignment_scores_computed = False,
       scores_propagated = False \<rparr>"

subsection \<open>Ingestion: \<^verbatim>\<open>_add\<close> and \<^verbatim>\<open>process_texts\<close>\<close>

text \<open>
  \<^verbatim>\<open>tuple(self._stemmer.stem(token) for token in tokens)\<close>: the tokens are stemmed from
  left to right, each call recording the surface form in the stemmer.
\<close>

fun stem_tokens :: "('a, 's) collaborators \<Rightarrow> 's \<Rightarrow> string list \<Rightarrow> string list \<times> 's" where
  "stem_tokens ext st [] = ([], st)"
| "stem_tokens ext st (token # tokens) =
     (case stem ext st token of
        (s, st1) \<Rightarrow> (case stem_tokens ext st1 tokens of (ss, st2) \<Rightarrow> (s # ss, st2)))"

text \<open>
  The loop of \<^verbatim>\<open>_add\<close> over the reversed stems. \<open>current\<close> is the node the loop variable
  \<^verbatim>\<open>current\<close> refers to. One iteration changes \<open>current\<close> and its child under \<open>token\<close>, then
  moves \<^verbatim>\<open>current\<close> to that child; the remaining iterations only touch nodes below it.
  The function therefore runs the remaining iterations on the child and stores the
  result back under \<open>token\<close>.
\<close>

fun add_loop ::
  "('a, 's) collaborators \<Rightarrow> 'a node \<Rightarrow> (string list \<times> rat) list \<Rightarrow> string list
     \<Rightarrow> error + ('a node \<times> (string list \<times> rat) list)" where
  "add_loop ext current lfs [] = Inr (current, lfs)"
| "add_loop ext current lfs (token # tokens) =
     (case map_of (children current) token of
        None \<Rightarrow>
          (let new = TrieNode_init ext (longform (info current) @ [token]) ParentOwner None
           in case (if \<not> is_root current
                    then (case update_likelihood current 1 1 of
                            Inl e \<Rightarrow> Inl e
                          | Inr current1 \<Rightarrow>
                              Inr (current1,
                                   AList.update (rev (longform (info current1)))
                                     (score (info current1)) lfs))
                    else Inr (current, lfs)) of
                Inl e \<Rightarrow> Inl e
              | Inr (current1, lfs1) \<Rightarrow>
                  (let lfs2 = AList.update (rev (longform (info new))) (score (info new)) lfs1
                   in case add_loop ext new lfs2 tokens of
                        Inl e \<Rightarrow> Inl e
                      | Inr (new', lfs3) \<Rightarrow>
                          Inr (Node (info current1)
                                 (AList.update token new' (children current1)), lfs3)))
      | Some child \<Rightarrow>
          (case increment_count child 1 of
             Inl e \<Rightarrow> Inl e
           | Inr child1 \<Rightarrow>
              (let lfs1 = AList.update (rev (longform (info child1))) (score (info child1)) lfs
               in case (if \<not> is_root current
                        then (case count (info child1) of
                                None \<Rightarrow> Inl AttributeError
                              | Some cnt \<Rightarrow>
                                 (case update_likelihood current cnt 1 of
                                    Inl e \<Rightarrow> Inl e
                                  | Inr current1 \<Rightarrow>
                                      Inr (current1,
                                           AList.update (rev (longform (info current1)))
                                             (score (info current1)) lfs1)))
                        else Inr (current, lfs1)) of
                    Inl e \<Rightarrow> Inl e
                  | Inr (current1, lfs2) \<Rightarrow>
                     (case add_loop ext child1 lfs2 tokens of
                        Inl e \<Rightarrow> Inl e
                      | Inr (child', lfs3) \<Rightarrow>
                          Inr (Node (info current1)
                                 (AList.update token child' (children current1)), lfs3)))))"

text \<open>\<^verbatim>\<open>_add(tokens)\<close>.\<close>

definition add ::
  "('a, 's) collaborators \<Rightarrow> ('a, 's) miner \<Rightarrow> string list \<Rightarrow> error + ('a, 's) miner" where
  "add ext self tokens =
     (case stem_tokens ext (stemmer self) tokens of
        (stems, st) \<Rightarrow>
          (case add_loop ext (internal_trie self) (longforms self) (rev stems) of
             Inl e \<Rightarrow> Inl e
           | Inr (trie, lfs) \<Rightarrow>
               Inr (self\<lparr> internal_trie := trie, longforms := lfs, stemmer := st \<rparr>)))"

text \<open>
  \<^verbatim>\<open>process_texts(texts)\<close>: for every text, for every non-empty fragment, \<^verbatim>\<open>_add\<close> of its
  candidate, then both flags are cleared.
\<close>

fun add_fragments ::
  "('a, 's) collaborators \<Rightarrow> ('a, 's) miner \<Rightarrow> string list \<Rightarrow> error + ('a, 's) miner" where
  "add_fragments ext self [] = Inr self"
| "add_fragments ext self (fragment # fragments) =
     (if fragment \<noteq> []
      then (case add ext self (get_candidate ext fragment) of
              Inl e \<Rightarrow> Inl e
            | Inr self1 \<Rightarrow> add_fragments ext self1 fragments)
      else add_fragments ext self fragments)"

fun add_texts ::
  "('a, 's) collaborators \<Rightarrow> ('a, 's) miner \<Rightarrow> string list \<Rightarrow> error + ('a, 's) miner" where
  "add_texts ext self [] = Inr self"
| "add_texts ext self (text # texts) =
     (case add_fragments ext self
             (get_candidate_fragments ext text (shortform self) (window self)) of
        Inl e \<Rightarrow> Inl e
      | Inr self1 \<Rightarrow> add_texts ext self1 texts)"

definition process_texts ::
  "('a, 's) collaborators \<Rightarrow> ('a, 's) miner \<Rightarrow> string list \<Rightarrow> error + ('a, 's) miner" where
  "process_texts ext self texts =
     (case add_texts ext self texts of
        Inl e \<Rightarrow> Inl e
      | Inr self1 \<Rightarrow>
          Inr (self1\<lparr> alignment_scores_computed := False, scores_propagated := False \<rparr>))"

section \<open>References into the trie\<close>

text \<open>
  A reference to a node of the trie is the list of tokens on the way from the root to
  it. \<open>node_at\<close> reads the node a path addresses, \<open>set_at\<close> writes it back.
\<close>

fun node_at :: "'a node \<Rightarrow> string list \<Rightarrow> 'a node option" where
  "node_at n [] = Some n"
| "node_at n (token # path) =
     (case map_of (children n) token of None \<Rightarrow> None | Some c \<Rightarrow> node_at c path)"

fun set_at :: "string list \<Rightarrow> 'a node \<Rightarrow> 'a node \<Rightarrow> 'a node" where
  "set_at [] new n = new"
| "set_at (token # path) new n =
     (case map_of (children n) token of
        None \<Rightarrow> n
      | Some c \<Rightarrow> Node (info n) (AList.update token (set_at path new c) (children n)))"

subsection \<open>The breadth-first loops\<close>

text \<open>
  \<^verbatim>\<open>_propagate_scores\<close> and \<^verbatim>\<open>compute_alignment_scores\<close> run the same loop:
  \<^verbatim>\<open>
  queue = deque([root])
  while queue:
      current = queue.pop()
      for token, child in current.children.items():
          <assign fields of child from fields of current and token>
          queue.appendleft(child)
  \<close>
  \<open>visit_children upd current\<close> is the \<^verbatim>\<open>for\<close> loop on \<open>current\<close>, \<open>upd\<close> the assignment.
  The queue is a list with \<^verbatim>\<open>appendleft\<close> at the head and \<^verbatim>\<open>pop\<close> at the end; the last
  argument is the value of \<^verbatim>\<open>current\<close> after the loop.
\<close>

definition visit_children ::
  "('a node_info \<Rightarrow> string \<Rightarrow> 'a node_info \<Rightarrow> 'a node_info) \<Rightarrow> 'a node \<Rightarrow> 'a node" where
  "visit_children upd current =
     Node (info current)
       (map (\<lambda>(token, child). (token, Node (upd (info current) token (info child)) (children child)))
          (children current))"

text \<open>The termination measure of the loop: the number of nodes reached from a node by lookups.\<close>

function weight :: "'a node \<Rightarrow> nat" where
  "weight (Node i cs) =
     Suc (sum_list (map (\<lambda>(token, _). case map_of cs token of None \<Rightarrow> 0 | Some c \<Rightarrow> weight c) cs))"
  by pat_completeness auto
termination
proof (relation "measure size")
  show "wf (measure size)" by simp
next
  fix i and cs :: "(string \<times> 'a node) list" and x token y c
  assume "map_of cs token = Some c"
  then have "(token, c) \<in> set cs" by (rule map_of_SomeD)
  then have "size c < Suc (size_list (size_prod (\<lambda>_. 0) size) cs)"
    by (induction cs) auto
  then show "(c, Node i cs) \<in> measure size" by simp
qed

definition weight_at :: "'a node \<Rightarrow> string list \<Rightarrow> nat" where
  "weight_at trie p = (case node_at trie p of None \<Rightarrow> 0 | Some n \<Rightarrow> weight n)"


lemma node_at_append:
  "node_at n (p @ q) = (case node_at n p of None \<Rightarrow> None | Some m \<Rightarrow> node_at m q)"
  by (induction p arbitrary: n) (auto split: option.splits)

lemma map_of_visited:
  "map_of (map (\<lambda>(token, child). (token, f token child)) cs) k = map_option (f k) (map_of cs k)"
  by (induction cs) auto

declare weight.simps [simp del]

lemma weight_keys:
  "weight (Node i cs) =
     Suc (sum_list (map (\<lambda>k. case map_of cs k of None \<Rightarrow> 0 | Some c \<Rightarrow> weight c) (map fst cs)))"
  by (simp add: weight.simps o_def case_prod_unfold)

lemma weight_cong:
  assumes "map fst cs' = map fst cs"
    and "\<And>k. k \<in> fst ` set cs \<Longrightarrow>
           (case map_of cs' k of None \<Rightarrow> 0 | Some c \<Rightarrow> weight c)
         = (case map_of cs k of None \<Rightarrow> 0 | Some c \<Rightarrow> weight c)"
  shows "weight (Node i cs') = weight (Node j cs)"
proof -
  have "map (\<lambda>k. case map_of cs' k of None \<Rightarrow> 0 | Some c \<Rightarrow> weight c) (map fst cs)
      = map (\<lambda>k. case map_of cs k of None \<Rightarrow> 0 | Some c \<Rightarrow> weight c) (map fst cs)"
    by (rule map_cong[OF refl]) (use assms(2) in auto)
  then show ?thesis
    by (simp only: weight_keys assms(1))
qed

lemma weight_info: "weight (Node j (children c)) = weight c"
  by (cases c) (simp add: weight_cong[OF refl refl])

lemma weight_visit_children: "weight (visit_children upd n) = weight n"
proof (cases n)
  case (Node i cs)
  define f where "f = (\<lambda>token child. Node (upd i token (info child)) (children child))"
  define cs' where "cs' = map (\<lambda>(token, child). (token, f token child)) cs"
  have keys: "map fst cs' = map fst cs"
    by (simp add: cs'_def o_def case_prod_unfold)
  have "(case map_of cs' k of None \<Rightarrow> 0 | Some c \<Rightarrow> weight c)
        = (case map_of cs k of None \<Rightarrow> 0 | Some c \<Rightarrow> weight c)" for k
    by (simp add: cs'_def map_of_visited f_def weight_info split: option.splits)
  then have "weight (Node i cs') = weight (Node i cs)"
    by (intro weight_cong keys)
  then show ?thesis
    by (simp add: Node visit_children_def cs'_def f_def)
qed

lemma weight_at_visit_children:
  "weight_at (visit_children upd n) q = weight_at n q"
proof (cases q)
  case Nil
  then show ?thesis by (simp add: weight_at_def weight_visit_children)
next
  case (Cons t q')
  obtain i cs where n: "n = Node i cs" by (cases n)
  show ?thesis
  proof (cases "map_of cs t")
    case None
    then show ?thesis by (simp add: weight_at_def Cons n visit_children_def map_of_visited)
  next
    case (Some c)
    have "node_at (Node j (children c)) q' = node_at c q' \<or> q' = []" for j
      by (cases q'; cases c) simp_all
    then have "(case node_at (Node j (children c)) q' of None \<Rightarrow> 0 | Some n \<Rightarrow> weight n)
             = (case node_at c q' of None \<Rightarrow> 0 | Some n \<Rightarrow> weight n)" for j
      using weight_info[of j c] by (cases "q' = []") auto
    then show ?thesis
      using Some by (simp add: weight_at_def Cons n visit_children_def map_of_visited)
  qed
qed

lemma weight_at_set_at:
  "node_at trie p = Some n \<Longrightarrow> (\<And>q. weight_at n' q = weight_at n q)
    \<Longrightarrow> weight_at (set_at p n' trie) q = weight_at trie q"
proof (induction p arbitrary: trie q)
  case Nil
  then show ?case by simp
next
  case (Cons t ts)
  obtain i cs where trie: "trie = Node i cs" by (cases trie)
  from Cons.prems(1) obtain c where c: "map_of cs t = Some c" and n: "node_at c ts = Some n"
    by (auto simp: trie split: option.splits)
  define c' where "c' = set_at ts n' c"
  have IH: "weight_at c' q = weight_at c q" for q
    unfolding c'_def using Cons.IH[OF n Cons.prems(2)] .
  have wc: "weight c' = weight c" using IH[of "[]"] by (simp add: weight_at_def)
  have keys: "map fst (AList.update t c' cs) = map fst cs"
    using c by (induction cs) (auto split: if_splits)
  have lk: "map_of (AList.update t c' cs) k = (if k = t then Some c' else map_of cs k)" for k
    by (simp add: update_conv')
  have w: "weight (Node i (AList.update t c' cs)) = weight (Node i cs)"
    by (rule weight_cong[OF keys]) (simp add: lk c wc)
  have set: "set_at (t # ts) n' trie = Node i (AList.update t c' cs)"
    by (simp add: trie c c'_def)
  have "weight_at (Node i (AList.update t c' cs)) q = weight_at (Node i cs) q"
  proof (cases q)
    case Nil
    then show ?thesis
      using w by (simp add: weight_at_def)
  next
    case (Cons u q')
    then show ?thesis
      using IH[of q'] c by (simp add: weight_at_def lk)
  qed
  then show ?case
    by (simp only: set) (simp only: trie)
qed

function bfs_children ::
  "('a node_info \<Rightarrow> string \<Rightarrow> 'a node_info \<Rightarrow> 'a node_info) \<Rightarrow> 'a node \<Rightarrow> string list list
     \<Rightarrow> string list \<Rightarrow> error + ('a node \<times> string list)" where
  "bfs_children upd trie queue cur =
     (if queue = [] then Inr (trie, cur)
      else (case node_at trie (last queue) of
              None \<Rightarrow> Inl InvalidReference
            | Some current \<Rightarrow>
                bfs_children upd
                  (set_at (last queue) (visit_children upd current) trie)
                  (rev (map (\<lambda>(token, child). last queue @ [token]) (children current))
                     @ butlast queue)
                  (last queue)))"
  by pat_completeness auto
termination
proof (relation "measure (\<lambda>(upd, trie, queue, cur). sum_list (map (weight_at trie) queue))")
  show "wf (measure (\<lambda>(upd, trie, queue, cur). sum_list (map (weight_at trie) queue)))" by simp
next
  fix upd :: "'a node_info \<Rightarrow> string \<Rightarrow> 'a node_info \<Rightarrow> 'a node_info"
  fix trie :: "'a node" and queue :: "string list list" and cur :: "string list" and current
  assume ne: "queue \<noteq> []" and cur: "node_at trie (last queue) = Some current"
  define p where "p = last queue"
  define trie' where "trie' = set_at p (visit_children upd current) trie"
  define pushed where "pushed = rev (map (\<lambda>(token, child). p @ [token]) (children current))"
  have same: "weight_at trie' = weight_at trie"
    unfolding trie'_def p_def
    by (rule ext, rule weight_at_set_at[OF cur weight_at_visit_children])
  have child: "weight_at trie (p @ [t])
      = (case map_of (children current) t of None \<Rightarrow> 0 | Some c \<Rightarrow> weight c)" for t
    using cur by (simp add: weight_at_def node_at_append p_def split: option.splits)
  have "sum_list (map (weight_at trie) pushed) < weight current"
    unfolding pushed_def
    by (cases current) (simp add: o_def case_prod_unfold child weight_keys sum_list_rev rev_map[symmetric])
  moreover have "sum_list (map (weight_at trie) queue)
      = sum_list (map (weight_at trie) (butlast queue)) + weight current"
    using ne cur by (subst append_butlast_last_id[OF ne, symmetric], simp only: map_append sum_list_append)
       (simp add: weight_at_def)
  ultimately have "sum_list (map (weight_at trie') (pushed @ butlast queue))
      < sum_list (map (weight_at trie) queue)"
    by (simp add: same)
  then show "((upd, set_at (last queue) (visit_children upd current) trie,
            rev (map (\<lambda>(token, child). last queue @ [token]) (children current)) @ butlast queue,
            last queue), upd, trie, queue, cur)
          \<in> measure (\<lambda>(upd, trie, queue, cur). sum_list (map (weight_at trie) queue))"
    by (simp add: p_def trie'_def pushed_def)
qed


declare bfs_children.simps [simp del]

subsection \<open>\<^verbatim>\<open>_propagate_scores\<close>\<close>

text \<open>
  The assignment of the first loop:
  \<^verbatim>\<open>
  if child.score > current.best_ancestor_score:
      child.best_ancestor_score = child.score
  else:
      child.best_ancestor_score = current.best_ancestor_score
  \<close>
\<close>

definition ancestor_update :: "'a node_info \<Rightarrow> string \<Rightarrow> 'a node_info \<Rightarrow> 'a node_info" where
  "ancestor_update current token child =
     child\<lparr> best_ancestor_score :=
              (if score child > best_ancestor_score current then score child
               else best_ancestor_score current) \<rparr>"

text \<open>
  The inner \<^verbatim>\<open>while\<close> loop, which follows \<^verbatim>\<open>current.parent\<close>. From a node whose parent is
  a node of a deep copy (\<open>ParentCopy\<close>) the loop goes on over nodes that are not part of
  this trie, up to the root of that copy, and this trie stays as it is.
  \<^verbatim>\<open>not current.parent.best_descendent_score\<close> is true when the value is zero.
\<close>

function descendent_loop :: "'a node \<Rightarrow> string list \<Rightarrow> error + 'a node" where
  "descendent_loop trie cur =
     (case node_at trie cur of
        None \<Rightarrow> Inl InvalidReference
      | Some current \<Rightarrow>
         (case parent (info current) of
            ParentNone \<Rightarrow> Inr trie
          | ParentCopy \<Rightarrow> Inr trie
          | ParentOwner \<Rightarrow>
             (if cur = [] then Inl InvalidReference
              else (case node_at trie (butlast cur) of
                      None \<Rightarrow> Inl InvalidReference
                    | Some par \<Rightarrow>
                       (if best_descendent_score (info current) > score (info par)
                           \<or> best_descendent_score (info par) = 0
                        then descendent_loop
                               (set_at (butlast cur)
                                  (Node ((info par)\<lparr> best_descendent_score :=
                                            (if score (info par) > best_descendent_score (info current)
                                             then score (info par)
                                             else best_descendent_score (info current)) \<rparr>)
                                        (children par))
                                  trie)
                               (butlast cur)
                        else Inr trie)))))"
  by pat_completeness auto
termination
  by (relation "measure (\<lambda>(trie, cur). length cur)") auto

declare descendent_loop.simps [simp del]

text \<open>
  \<^verbatim>\<open>_propagate_scores\<close>. The \<^verbatim>\<open>if not current.children\<close> block is indented at the level of
  the \<^verbatim>\<open>while queue\<close> statement: it runs once, after the loop, on the node popped last.
\<close>

definition propagate_scores :: "'a node \<Rightarrow> error + 'a node" where
  "propagate_scores trie0 =
     (case bfs_children ancestor_update trie0 [[]] [] of
        Inl e \<Rightarrow> Inl e
      | Inr (trie, cur) \<Rightarrow>
         (case node_at trie cur of
            None \<Rightarrow> Inl InvalidReference
          | Some current \<Rightarrow>
             (if children current = []
              then descendent_loop
                     (set_at cur
                        (Node ((info current)\<lparr> best_descendent_score := score (info current) \<rparr>)
                              (children current))
                        trie)
                     cur
              else Inr trie)))"

subsection \<open>\<^verbatim>\<open>compute_alignment_scores\<close>\<close>

text \<open>
  \<open>next_score ext shortform token\<close> is \<^verbatim>\<open>AlignmentBasedScorer(shortform)._next_score(token, *data)\<close>.
  The attribute \<^verbatim>\<open>_abs_fit\<close> that the method sets is never read and is left out.
\<close>

definition alignment_update ::
  "('a, 's) collaborators \<Rightarrow> string \<Rightarrow> 'a node_info \<Rightarrow> string \<Rightarrow> 'a node_info \<Rightarrow> 'a node_info" where
  "alignment_update ext sf current token child =
     (case next_score ext sf token (alignment_score current, align_state current) of
        (a, st) \<Rightarrow> child\<lparr> alignment_score := a, align_state := st \<rparr>)"

definition compute_alignment_scores ::
  "('a, 's) collaborators \<Rightarrow> string \<Rightarrow> 'a node \<Rightarrow> error + 'a node" where
  "compute_alignment_scores ext sf trie0 =
     (case bfs_children (alignment_update ext sf) trie0 [[]] [] of
        Inl e \<Rightarrow> Inl e
      | Inr (trie, cur) \<Rightarrow> Inr trie)"

subsection \<open>\<^verbatim>\<open>get_longforms\<close>\<close>

text \<open>\<^verbatim>\<open>max_length\<close> is \<^verbatim>\<open>'auto'\<close>, \<^verbatim>\<open>None\<close> or an integer.\<close>

datatype max_length = Auto | Unbounded | AtMost int

text \<open>
  The two local functions \<^verbatim>\<open>score_func\<close> of \<^verbatim>\<open>get_longforms\<close>, selected by \<^verbatim>\<open>use_abs\<close>.
  Both read \<^verbatim>\<open>node.count\<close> last.
\<close>

definition score_func ::
  "('a, 's) collaborators \<Rightarrow> bool \<Rightarrow> rat \<Rightarrow> rat \<Rightarrow> 'a node \<Rightarrow> error + (rat \<times> int)" where
  "score_func ext use_abs smoothing_param abs_decay_param node =
     (let acro_score = scaled_score node smoothing_param;
          sc =
            (if \<not> use_abs then acro_score
             else (let phi = np_exp ext
                               (- abs_decay_param *
                                  max 0 (max (best_ancestor_score (info node) - 1)
                                             (best_descendent_score (info node) - 1)))
                   in phi * alignment_score (info node) + (1 - phi) * acro_score))
      in case count (info node) of
           None \<Rightarrow> Inl AttributeError
         | Some c \<Rightarrow> Inr (sc, c))"

text \<open>
  The list comprehension of \<^verbatim>\<open>_get_longform_helper\<close>:
  \<^verbatim>\<open>[(longform, score, count) for longform, score, count in child_longforms
     if node.is_root() or score > score_func(node)[0]]\<close>.
  \<open>own\<close> is the result of \<^verbatim>\<open>score_func(node)\<close>, which is only evaluated when the node is
  not the root.
\<close>

fun keep_better ::
  "bool \<Rightarrow> error + (rat \<times> int) \<Rightarrow> (string list \<times> rat \<times> int) list
     \<Rightarrow> error + (string list \<times> rat \<times> int) list" where
  "keep_better at_root own [] = Inr []"
| "keep_better at_root own ((lf, sc, cnt) # rest) =
     (if at_root
      then (case keep_better at_root own rest of
              Inl e \<Rightarrow> Inl e
            | Inr kept \<Rightarrow> Inr ((lf, sc, cnt) # kept))
      else (case own of
              Inl e \<Rightarrow> Inl e
            | Inr (own_score, _) \<Rightarrow>
               (case keep_better at_root own rest of
                  Inl e \<Rightarrow> Inl e
                | Inr kept \<Rightarrow> Inr (if sc > own_score then (lf, sc, cnt) # kept else kept))))"

text \<open>
  \<^verbatim>\<open>_get_longform_helper(node, score_func)\<close>; \<open>helper_children\<close> is its \<^verbatim>\<open>for\<close> loop over
  \<^verbatim>\<open>node.children.values()\<close>.
\<close>

function get_longform_helper ::
    "('a node \<Rightarrow> error + (rat \<times> int)) \<Rightarrow> 'a node \<Rightarrow> error + (string list \<times> rat \<times> int) list"
  and helper_children ::
    "('a node \<Rightarrow> error + (rat \<times> int)) \<Rightarrow> 'a node \<Rightarrow> (string \<times> 'a node) list
       \<Rightarrow> error + (string list \<times> rat \<times> int) list" where
  "get_longform_helper sf node =
     (if children node = []
      then (case sf node of
              Inl e \<Rightarrow> Inl e
            | Inr (sc, cnt) \<Rightarrow> Inr [(longform (info node), sc, cnt)])
      else (case helper_children sf node (children node) of
              Inl e \<Rightarrow> Inl e
            | Inr result \<Rightarrow>
               (if result = []
                then (case sf node of
                        Inl e \<Rightarrow> Inl e
                      | Inr (sc, cnt) \<Rightarrow> Inr [(longform (info node), sc, cnt)])
                else Inr result)))"
| "helper_children sf node [] = Inr []"
| "helper_children sf node ((token, child) # rest) =
     (case get_longform_helper sf child of
        Inl e \<Rightarrow> Inl e
      | Inr child_longforms \<Rightarrow>
         (case keep_better (is_root node) (sf node) child_longforms of
            Inl e \<Rightarrow> Inl e
          | Inr kept \<Rightarrow>
             (case helper_children sf node rest of
                Inl e \<Rightarrow> Inl e
              | Inr result \<Rightarrow> Inr (kept @ result))))"
  by pat_completeness auto
termination
  by (relation "measure (\<lambda>x. case x of
          Inl (sf, node) \<Rightarrow> 2 * size node
        | Inr (sf, node, cs) \<Rightarrow> 2 * size_list (size_prod (\<lambda>_. 0) size) cs + 1)")
     (auto, case_tac node, auto)

text \<open>\<^verbatim>\<open>' '.join(words)\<close> and \<^verbatim>\<open>_make_readable\<close>.\<close>

definition join_words :: "string list \<Rightarrow> string" where
  "join_words ws = (case ws of [] \<Rightarrow> [] | w # rest \<Rightarrow> w @ concat (map (\<lambda>v. CHR '' '' # v) rest))"

definition make_readable :: "('a, 's) collaborators \<Rightarrow> ('a, 's) miner \<Rightarrow> string list \<Rightarrow> string" where
  "make_readable ext self tokens = join_words (map (most_frequent ext (stemmer self)) (rev tokens))"

text \<open>
  \<^verbatim>\<open>get_longforms\<close> returns its list and the miner as the call leaves it (the passes it ran
  and the flags it set).
\<close>

definition get_longforms ::
  "('a, 's) collaborators \<Rightarrow> ('a, 's) miner \<Rightarrow> rat \<Rightarrow> rat \<Rightarrow> max_length \<Rightarrow> bool \<Rightarrow> rat
     \<Rightarrow> error + ((string \<times> int \<times> rat) list \<times> ('a, 's) miner)" where
  "get_longforms ext self cutoff smoothing_param max_len use_abs abs_decay_param =
     (let limit = (case max_len of
                     Auto \<Rightarrow> Some (2 * int (length (shortform self)) + 1)
                   | Unbounded \<Rightarrow> None
                   | AtMost n \<Rightarrow> Some n)
      in case (if \<not> scores_propagated self
               then (case propagate_scores (internal_trie self) of
                       Inl e \<Rightarrow> Inl e
                     | Inr trie \<Rightarrow> Inr (self\<lparr> internal_trie := trie, scores_propagated := True \<rparr>))
               else Inr self) of
           Inl e \<Rightarrow> Inl e
         | Inr self1 \<Rightarrow>
            (case (if use_abs \<and> \<not> alignment_scores_computed self1
                   then (case compute_alignment_scores ext (shortform self1) (internal_trie self1) of
                           Inl e \<Rightarrow> Inl e
                         | Inr trie \<Rightarrow>
                             Inr (self1\<lparr> internal_trie := trie, alignment_scores_computed := True \<rparr>))
                   else Inr self1) of
               Inl e \<Rightarrow> Inl e
             | Inr self2 \<Rightarrow>
                (case get_longform_helper (score_func ext use_abs smoothing_param abs_decay_param)
                        (internal_trie self2) of
                   Inl e \<Rightarrow> Inl e
                 | Inr found \<Rightarrow>
                    (let above = filter (\<lambda>(lf, sc, cnt). sc > cutoff) found;
                         short = filter (\<lambda>(lf, sc, cnt).
                                    case limit of None \<Rightarrow> True | Some n \<Rightarrow> int (length lf) \<le> n) above;
                         readable = map (\<lambda>(lf, sc, cnt). (make_readable ext self2 lf, sc, cnt)) short;
                         ranked = sort_key (\<lambda>(lf, sc, cnt). (- cnt, - sc, lf)) readable
                     in Inr (map (\<lambda>(lf, sc, cnt). (lf, cnt, sc)) ranked, self2)))))"


section \<open>Merging: \<^verbatim>\<open>update\<close> and \<^verbatim>\<open>compose\<close>\<close>

text \<open>
  One iteration of \<^verbatim>\<open>for token, child in right.children.items()\<close> on the node \<open>left\<close>.
  The result holds the new \<open>left\<close>, the new \<^verbatim>\<open>_longforms\<close> and whether the pair
  \<^verbatim>\<open>(current, child)\<close> is queued. A child stored under \<open>left\<close> keeps the \<^verbatim>\<open>parent\<close> it had in the
  deep copy, which from then on is \<open>ParentCopy\<close>.
\<close>

definition merge_child ::
  "'a node \<Rightarrow> (string list \<times> rat) list \<Rightarrow> string \<Rightarrow> 'a node
     \<Rightarrow> error + ('a node \<times> (string list \<times> rat) list \<times> bool)" where
  "merge_child left lfs token child =
     (case map_of (children left) token of
        None \<Rightarrow>
          (let left1 = Node (info left)
                         (AList.update token
                            (Node ((info child)\<lparr> parent := ParentCopy \<rparr>) (children child))
                            (children left))
           in if \<not> is_root left1
              then (case count (info child) of
                      None \<Rightarrow> Inl AttributeError
                    | Some c \<Rightarrow>
                       (case update_likelihood left1 c c of
                          Inl e \<Rightarrow> Inl e
                        | Inr left2 \<Rightarrow>
                            Inr (left2,
                                 AList.update (rev (longform (info left2))) (score (info left2)) lfs,
                                 False)))
              else Inr (left1, lfs, False))
      | Some current \<Rightarrow>
          (case count (info child) of
             None \<Rightarrow> Inl AttributeError
           | Some c2 \<Rightarrow>
              (case increment_count current c2 of
                 Inl e \<Rightarrow> Inl e
               | Inr current1 \<Rightarrow>
                  (let lfs1 = AList.update (rev (longform (info current1))) (score (info current1)) lfs;
                       left1 = Node (info left) (AList.update token current1 (children left))
                   in if \<not> is_root left1
                      then (case count (info current1) of
                              None \<Rightarrow> Inl AttributeError
                            | Some c1 \<Rightarrow>
                               (case update_likelihood left1 c1 c2 of
                                  Inl e \<Rightarrow> Inl e
                                | Inr left2 \<Rightarrow>
                                    Inr (left2,
                                         AList.update (rev (longform (info left2)))
                                           (score (info left2)) lfs1,
                                         True)))
                      else Inr (left1, lfs1, True)))))"

text \<open>
  The \<^verbatim>\<open>for\<close> loop of \<^verbatim>\<open>update\<close> for one pair \<^verbatim>\<open>(left, right)\<close>; \<open>p\<close> is the path of \<open>left\<close> in
  the receiving trie, and the nodes of the deep copy are values.
\<close>

fun merge_children ::
  "'a node \<Rightarrow> (string list \<times> rat) list \<Rightarrow> (string list \<times> 'a node) list \<Rightarrow> string list
     \<Rightarrow> (string \<times> 'a node) list
     \<Rightarrow> error + ('a node \<times> (string list \<times> rat) list \<times> (string list \<times> 'a node) list)" where
  "merge_children trie lfs queue p [] = Inr (trie, lfs, queue)"
| "merge_children trie lfs queue p ((token, child) # rest) =
     (case node_at trie p of
        None \<Rightarrow> Inl InvalidReference
      | Some left \<Rightarrow>
         (case merge_child left lfs token child of
            Inl e \<Rightarrow> Inl e
          | Inr (left1, lfs1, both) \<Rightarrow>
              merge_children (set_at p left1 trie) lfs1
                (if both then (p @ [token], child) # queue else queue) p rest))"

lemma merge_children_queue:
  "merge_children trie lfs queue p cs = Inr (trie1, lfs1, queue1)
    \<Longrightarrow> sum_list (map (size \<circ> snd) queue1)
        \<le> sum_list (map (size \<circ> snd) queue) + sum_list (map (size \<circ> snd) cs)"
proof (induction cs arbitrary: trie lfs queue)
  case Nil
  then show ?case by simp
next
  case (Cons tc cs)
  obtain token child where tc: "tc = (token, child)" by (cases tc)
  from Cons.prems obtain left left1 lfs' both where
    rec: "merge_children (set_at p left1 trie) lfs'
            (if both then (p @ [token], child) # queue else queue) p cs = Inr (trie1, lfs1, queue1)"
    by (auto simp: tc split: option.splits sum.splits)
  show ?case
    using Cons.IH[OF rec] by (simp add: tc split: if_splits)
qed

text \<open>The \<^verbatim>\<open>while queue\<close> loop of \<^verbatim>\<open>update\<close>.\<close>

function update_loop ::
  "'a node \<Rightarrow> (string list \<times> rat) list \<Rightarrow> (string list \<times> 'a node) list
     \<Rightarrow> error + ('a node \<times> (string list \<times> rat) list)" where
  "update_loop trie lfs queue =
     (if queue = [] then Inr (trie, lfs)
      else (case last queue of
              (p, right) \<Rightarrow>
                (case merge_children trie lfs (butlast queue) p (children right) of
                   Inl e \<Rightarrow> Inl e
                 | Inr (trie1, lfs1, queue1) \<Rightarrow> update_loop trie1 lfs1 queue1)))"
  by pat_completeness auto
termination
proof (relation "measure (\<lambda>(trie, lfs, queue). sum_list (map (size \<circ> snd) queue))")
  show "wf (measure (\<lambda>(trie, lfs, queue). sum_list (map (size \<circ> snd) queue)))" by simp
next
  fix trie :: "'a node" and lfs :: "(string list \<times> rat) list"
    and queue :: "(string list \<times> 'a node) list" and x p right x2 trie1 y lfs1 queue1
  assume ne: "queue \<noteq> []" and x: "(p, right) = last queue"
    and m: "merge_children trie lfs (butlast queue) p (children right) = Inr x2"
    and x2: "(trie1, y) = x2" and y: "(lfs1, queue1) = y"
  have m': "merge_children trie lfs (butlast queue) p (children right) = Inr (trie1, lfs1, queue1)"
    using m x2 y by simp
  have "sum_list (map (size \<circ> snd) cs) \<le> size_list (size_prod (\<lambda>_. 0) size) cs"
    for cs :: "(string \<times> 'a node) list"
    by (induction cs) auto
  then have "sum_list (map (size \<circ> snd) (children right)) < size right"
    by (cases right) (simp add: less_Suc_eq_le)
  moreover have "sum_list (map (size \<circ> snd) queue)
      = sum_list (map (size \<circ> snd) (butlast queue)) + size right"
  proof -
    define front where "front = butlast queue"
    have "queue = front @ [(p, right)]"
      unfolding front_def using ne by (simp add: x)
    then show ?thesis
      unfolding front_def[symmetric] by simp
  qed
  ultimately show "((trie1, lfs1, queue1), trie, lfs, queue)
      \<in> measure (\<lambda>(trie, lfs, queue). sum_list (map (size \<circ> snd) queue))"
    using merge_children_queue[OF m'] by simp
qed

declare update_loop.simps [simp del]

text \<open>
  \<^verbatim>\<open>update(adeft_miner)\<close>. \<open>counts_update\<close> is \<^verbatim>\<open>self._stemmer.counts.update(...)\<close>; the deep copy
  of the other trie is the other trie as a value. Neither flag is assigned.
\<close>

definition update ::
  "('a, 's) collaborators \<Rightarrow> ('a, 's) miner \<Rightarrow> ('a, 's) miner \<Rightarrow> error + ('a, 's) miner" where
  "update ext self adeft_miner =
     (let st = counts_update ext (stemmer self) (stemmer adeft_miner);
          lfs = fold (\<lambda>(key, v). AList.update key v)
                  (filter (\<lambda>(key, v). map_of (longforms self) key = None) (longforms adeft_miner))
                  (longforms self)
      in case update_loop (internal_trie self) lfs [([], internal_trie adeft_miner)] of
           Inl e \<Rightarrow> Inl e
         | Inr (trie, lfs1) \<Rightarrow>
             Inr (self\<lparr> internal_trie := trie, longforms := lfs1, stemmer := st \<rparr>))"

text \<open>
  \<^verbatim>\<open>compose(*adeft_miners)\<close>: a deep copy of the first miner, updated with the others in
  turn. \<^verbatim>\<open>adeft_miners[0]\<close> raises \<^verbatim>\<open>IndexError\<close> when no miner is passed.
\<close>

fun update_all ::
  "('a, 's) collaborators \<Rightarrow> ('a, 's) miner \<Rightarrow> ('a, 's) miner list \<Rightarrow> error + ('a, 's) miner" where
  "update_all ext out [] = Inr out"
| "update_all ext out (miner # miners) =
     (case update ext out miner of
        Inl e \<Rightarrow> Inl e
      | Inr out1 \<Rightarrow> update_all ext out1 miners)"

definition compose ::
  "('a, 's) collaborators \<Rightarrow> ('a, 's) miner list \<Rightarrow> error + ('a, 's) miner" where
  "compose ext adeft_miners =
     (case adeft_miners of
        [] \<Rightarrow> Inl IndexError
      | first # others \<Rightarrow> update_all ext first others)"

section \<open>Collaborators for the examples\<close>

text \<open>
  The concrete inputs below use the simplest collaborators: every text is one fragment,
  its candidate is the list of its words, tokens are their own stems and their own most
  frequent form, the alignment scorer hands the values of the parent on, and the weight
  \<^verbatim>\<open>phi\<close> is always 1.
\<close>

fun words_from :: "string \<Rightarrow> string \<Rightarrow> string list" where
  "words_from w [] = (if w = [] then [] else [w])"
| "words_from w (c # cs) =
     (if c = CHR '' '' then (if w = [] then words_from [] cs else w # words_from [] cs)
      else words_from (w @ [c]) cs)"

definition plain :: "(unit, unit) collaborators" where
  "plain = \<lparr> stemmer_new = (), stem = (\<lambda>st w. (w, st)), most_frequent = (\<lambda>st w. w),
       counts_update = (\<lambda>a b. a), stemmer_dump = id, stemmer_load = id,
       get_candidate_fragments = (\<lambda>t sf w. [t]), get_candidate = words_from [],
       next_score = (\<lambda>sf t x. x), align_new = (\<lambda>n. ()), np_exp = (\<lambda>x. 1) \<rparr>"



section \<open>Querying a miner that has seen no text\<close>

text \<open>
  Claim C7: \<^verbatim>\<open>get_longforms\<close> on a freshly constructed miner returns an empty result and
  raises no error.

  The code does not: the root of a fresh trie has no children, so
  \<^verbatim>\<open>_get_longform_helper\<close> calls \<^verbatim>\<open>score_func(root)\<close>, which reads \<^verbatim>\<open>root.count\<close>, a slot
  that \<^verbatim>\<open>__init__\<close> never assigns for the root. The call raises \<^verbatim>\<open>AttributeError\<close>
  whatever the arguments and whatever the collaborators. (\<^verbatim>\<open>top\<close>, the other query, tests
  for the empty case and returns \<^verbatim>\<open>[]\<close>.)
\<close>

theorem get_longforms_fresh_miner_raises:
  "get_longforms ext (AdeftMiner_init ext sf w) cutoff smoothing_param max_len use_abs abs_decay_param
     = Inl AttributeError"
  by (simp add: get_longforms_def AdeftMiner_init_def TrieNode_init_def propagate_scores_def
      compute_alignment_scores_def bfs_children.simps descendent_loop.simps visit_children_def
      score_func_def Let_def split: max_length.splits)

section \<open>The best descendent score\<close>

text \<open>
  Claim C3: after \<^verbatim>\<open>_propagate_scores\<close> on a non-empty trie, every node's
  \<^verbatim>\<open>best_descendent_score\<close> is the maximum of its own score and the scores of all its
  descendants.

  The code does not do this. The block that assigns \<^verbatim>\<open>best_descendent_score\<close> stands after
  the \<^verbatim>\<open>while queue\<close> loop, so it runs for one node only, the one popped last. After the
  texts \<open>a\<close> and \<open>b\<close> the trie has the two leaves \<open>a\<close> and \<open>b\<close>, each with score 1; the pass
  leaves the leaf \<open>a\<close> with the initial value \<open>-1\<close>.
\<close>

theorem propagate_scores_skips_leaf:
  "(case process_texts plain (AdeftMiner_init plain ''XX'' 100) [''a'', ''b''] of
      Inl e \<Rightarrow> False
    | Inr m \<Rightarrow>
       (case propagate_scores (internal_trie m) of
          Inl e \<Rightarrow> False
        | Inr trie \<Rightarrow>
           (case node_at trie [''a''] of
              None \<Rightarrow> False
            | Some a \<Rightarrow>
                children a = [] \<and> score (info a) = 1 \<and> best_descendent_score (info a) = - 1)))"
  by code_simp

section \<open>The staleness flags\<close>

text \<open>
  Claim C9: every mutating operation, \<^verbatim>\<open>process_texts\<close> and \<^verbatim>\<open>update\<close>, sets both
  \<^verbatim>\<open>_scores_propagated\<close> and \<^verbatim>\<open>_alignment_scores_computed\<close> to \<^verbatim>\<open>False\<close>, so that the next
  \<^verbatim>\<open>get_longforms\<close> runs both passes again.

  \<^verbatim>\<open>process_texts\<close> does; \<^verbatim>\<open>update\<close> assigns neither flag. A miner that has answered
  \<^verbatim>\<open>get_longforms\<close> and is then updated with a miner that saw the text \<open>b\<close> has a changed trie
  and both flags still set, and its next \<^verbatim>\<open>get_longforms\<close> leaves the merged node \<open>b\<close> with
  the initial \<^verbatim>\<open>best_ancestor_score\<close> \<open>-1\<close>.
\<close>

theorem update_keeps_flags_set:
  "(case process_texts plain (AdeftMiner_init plain ''XX'' 100) [''a''] of
      Inl e \<Rightarrow> False
    | Inr m1 \<Rightarrow>
       (case get_longforms plain m1 (1 / 10) 4 Auto True (1 / 1000) of
          Inl e \<Rightarrow> False
        | Inr (found, m2) \<Rightarrow>
           (case process_texts plain (AdeftMiner_init plain ''XX'' 100) [''b''] of
              Inl e \<Rightarrow> False
            | Inr other \<Rightarrow>
               (case update plain m2 other of
                  Inl e \<Rightarrow> False
                | Inr m3 \<Rightarrow>
                    scores_propagated m2 \<and> alignment_scores_computed m2
                    \<and> internal_trie m3 \<noteq> internal_trie m2
                    \<and> scores_propagated m3 \<and> alignment_scores_computed m3
                    \<and> (case get_longforms plain m3 (1 / 10) 4 Auto True (1 / 1000) of
                          Inl e \<Rightarrow> False
                        | Inr (found', m4) \<Rightarrow>
                            map_option (\<lambda>n. best_ancestor_score (info n))
                              (node_at (internal_trie m4) [''b'']) = Some (- 1))))))"
  by code_simp


section \<open>Merging against mining in one miner\<close>

text \<open>
  Claim C2: processing corpus A then corpus B in one miner, and processing A and B in two
  miners that are then merged with \<^verbatim>\<open>update\<close>, give the same statistics at every node and
  the same ranked candidate lists after propagation.

  The ranked lists differ. A is the text \<open>d a\<close> twice, B the text \<open>b a\<close> twenty times. In the
  single miner the node \<open>b\<close> is created by \<^verbatim>\<open>_add\<close> with \<^verbatim>\<open>parent\<close> the node \<open>a\<close>; in the merged
  miner it is the node of the deep copy, stored by \<^verbatim>\<open>left.children[token] = child\<close> with its
  \<^verbatim>\<open>parent\<close> still the node \<open>a\<close> of the copy. \<^verbatim>\<open>_propagate_scores\<close> walks up from \<open>b\<close>, the node
  popped last: in the single miner it sets \<^verbatim>\<open>best_descendent_score\<close> of \<open>a\<close> to 20, in the
  merged miner it writes to the copy and \<open>a\<close> keeps \<open>-1\<close>. The scaled score of \<open>a\<close> is then
  29/253 in the single miner and 29/73 in the merged one, and the candidate \<open>d a\<close> with
  value 11/73 passes the filter of \<^verbatim>\<open>_get_longform_helper\<close> only in the first.
  The call is \<^verbatim>\<open>get_longforms(use_abs=False)\<close>, all other arguments at their defaults.
\<close>

theorem merged_ranking_differs:
  "(case process_texts plain (AdeftMiner_init plain ''XX'' 100) [''d a'', ''d a''] of
      Inl e \<Rightarrow> False
    | Inr miner_a \<Rightarrow>
       (case process_texts plain (AdeftMiner_init plain ''XX'' 100) (replicate 20 ''b a'') of
          Inl e \<Rightarrow> False
        | Inr miner_b \<Rightarrow>
           (case process_texts plain miner_a (replicate 20 ''b a'') of
              Inl e \<Rightarrow> False
            | Inr single \<Rightarrow>
               (case update plain miner_a miner_b of
                  Inl e \<Rightarrow> False
                | Inr merged \<Rightarrow>
                    map_sum id fst (get_longforms plain single (1 / 10) 4 Auto False (1 / 1000))
                      = Inr [(''b a'', 20, 19 / 23), (''d a'', 2, 11 / 73)]
                    \<and> map_sum id fst (get_longforms plain merged (1 / 10) 4 Auto False (1 / 1000))
                      = Inr [(''b a'', 20, 19 / 23)]))))"
  by code_simp

section \<open>Merging miners of different shortforms\<close>

text \<open>
  Claim C8: merging two miners built for different shortforms (with \<^verbatim>\<open>update\<close> or
  \<^verbatim>\<open>compose\<close>) fails with a ConfigurationMismatchError and leaves the receiving miner
  unmodified.

  The module has no such error and \<^verbatim>\<open>update\<close> never reads the other miner's shortform.
  The counterexample merges a miner for \<open>YY\<close> into a miner for \<open>XX\<close>: both \<^verbatim>\<open>update\<close> and
  \<^verbatim>\<open>compose\<close> return, and the receiving trie has gained the node \<open>b\<close>.
\<close>

theorem different_shortforms_merge:
  "(case process_texts plain (AdeftMiner_init plain ''XX'' 100) [''a''] of
      Inl e \<Rightarrow> False
    | Inr receiver \<Rightarrow>
       (case process_texts plain (AdeftMiner_init plain ''YY'' 100) [''b''] of
          Inl e \<Rightarrow> False
        | Inr other \<Rightarrow>
           shortform receiver \<noteq> shortform other
           \<and> (case update plain receiver other of
                 Inl e \<Rightarrow> False
               | Inr merged \<Rightarrow>
                   internal_trie merged \<noteq> internal_trie receiver
                   \<and> map fst (children (internal_trie merged)) = [''a'', ''b''])
           \<and> (case compose plain [receiver, other] of
                 Inl e \<Rightarrow> False
               | Inr merged \<Rightarrow> map fst (children (internal_trie merged)) = [''a'', ''b''])))"
  by code_simp

section \<open>Reading and writing along a path\<close>

text \<open>\<open>info_at\<close> reads the fields of the node a path addresses.\<close>

definition info_at :: "'a node \<Rightarrow> string list \<Rightarrow> 'a node_info option" where
  "info_at trie p = map_option info (node_at trie p)"

lemma node_at_set_at_below:
  "node_at trie p = Some n \<Longrightarrow> node_at (set_at p n' trie) (p @ r) = node_at n' r"
  by (induction p arbitrary: trie) (auto simp: update_conv' split: option.splits)

lemma node_at_set_at_same:
  "node_at trie p = Some n \<Longrightarrow> node_at (set_at p n' trie) p = Some n'"
  using node_at_set_at_below[of trie p n n' "[]"] by simp

lemma info_set_at_Cons [simp]: "info (set_at (t # ts) n' trie) = info trie"
  by (simp split: option.splits)

lemma info_at_set_at_other:
  "node_at trie p = Some n \<Longrightarrow> \<not> prefix p q
    \<Longrightarrow> info_at (set_at p n' trie) q = info_at trie q"
proof (induction p arbitrary: trie q)
  case Nil
  then show ?case by simp
next
  case (Cons t ts)
  from Cons.prems(1) obtain c where c: "map_of (children trie) t = Some c"
    and n: "node_at c ts = Some n"
    by (auto split: option.splits)
  show ?case
  proof (cases q)
    case Nil
    then show ?thesis by (simp add: info_at_def c)
  next
    case q: (Cons u q')
    show ?thesis
    proof (cases "u = t")
      case True
      with Cons.prems(2) q have "\<not> prefix ts q'" by simp
      from Cons.IH[OF n this] show ?thesis
        by (simp add: info_at_def q True c update_conv')
    next
      case False
      then show ?thesis by (simp add: info_at_def q c update_conv')
    qed
  qed
qed

lemma node_at_visit_children:
  "node_at (visit_children upd current) [] = Some (visit_children upd current)"
  "node_at (visit_children upd current) [t] =
     map_option (\<lambda>child. Node (upd (info current) t (info child)) (children child))
       (map_of (children current) t)"
  "node_at (visit_children upd current) (t # u # r) = node_at current (t # u # r)"
  by (auto simp: visit_children_def map_of_visited split: option.splits)

lemma info_at_visit:
  assumes "node_at trie p = Some current"
  shows "info_at (set_at p (visit_children upd current) trie) q =
     (if \<exists>t. q = p @ [t]
      then map_option (upd (info current) (last q)) (info_at trie q)
      else info_at trie q)"
proof (cases "prefix p q")
  case False
  then have "\<not> (\<exists>t. q = p @ [t])" by auto
  then show ?thesis using info_at_set_at_other[OF assms False] by simp
next
  case True
  then obtain r where q: "q = p @ r" by (auto simp: prefix_def)
  have at: "node_at trie (p @ r') = node_at current r'" for r'
    using assms by (simp add: node_at_append)
  show ?thesis
  proof (cases r)
    case Nil
    then show ?thesis
      using assms by (simp add: q info_at_def node_at_set_at_same[OF assms] visit_children_def)
  next
    case r: (Cons t r')
    show ?thesis
    proof (cases r')
      case Nil
      have one: "node_at current [t] = map_of (children current) t"
        by (simp split: option.splits)
      show ?thesis
        by (simp add: q r Nil info_at_def node_at_set_at_below[OF assms] at node_at_visit_children
            one option.map_comp o_def del: node_at.simps)
    next
      case (Cons u r'')
      then show ?thesis
        by (simp add: q r info_at_def node_at_set_at_below[OF assms] at node_at_visit_children
            del: node_at.simps)
    qed
  qed
qed


lemma info_at_set_at_info:
  assumes "node_at trie p = Some n" and "children n' = children n"
  shows "info_at (set_at p n' trie) q = (if q = p then Some (info n') else info_at trie q)"
proof (cases "prefix p q")
  case False
  then show ?thesis using info_at_set_at_other[OF assms(1) False] by auto
next
  case True
  then obtain r where q: "q = p @ r" by (auto simp: prefix_def)
  show ?thesis
  proof (cases r)
    case Nil
    then show ?thesis by (simp add: q info_at_def node_at_set_at_same[OF assms(1)])
  next
    case (Cons t r')
    have "node_at n' (t # r') = node_at n (t # r')" by (simp add: assms(2))
    then show ?thesis
      using assms(1) by (simp add: q Cons info_at_def node_at_append node_at_set_at_same[OF assms(1)]
          del: node_at.simps)
  qed
qed

section \<open>The best ancestor score\<close>

text \<open>
  \<open>ancestor_ok trie q\<close>: the node at \<open>q\<close>, when there is one, has as \<^verbatim>\<open>best_ancestor_score\<close>
  the larger of its own score and the \<^verbatim>\<open>best_ancestor_score\<close> of its parent.
\<close>

definition ancestor_ok :: "'a node \<Rightarrow> string list \<Rightarrow> bool" where
  "ancestor_ok trie q =
     (case info_at trie q of
        None \<Rightarrow> True
      | Some j \<Rightarrow>
         (case info_at trie (butlast q) of
            None \<Rightarrow> False
          | Some i \<Rightarrow> best_ancestor_score j = max (score j) (best_ancestor_score i)))"

lemma bfs_children_Inr:
  "bfs_children upd trie queue cur = Inr r \<Longrightarrow> queue \<noteq> [] \<Longrightarrow>
     \<exists>current. node_at trie (last queue) = Some current \<and>
       bfs_children upd (set_at (last queue) (visit_children upd current) trie)
         (rev (map (\<lambda>(token, child). last queue @ [token]) (children current)) @ butlast queue)
         (last queue) = Inr r"
  by (subst (asm) bfs_children.simps) (auto split: option.splits)

lemma bfs_ancestor_update:
  "bfs_children ancestor_update trie queue cur = Inr (trie', cur')
    \<Longrightarrow> (\<And>q. q \<noteq> [] \<Longrightarrow> (\<forall>p \<in> set queue. \<not> strict_prefix p q) \<Longrightarrow> ancestor_ok trie q)
    \<Longrightarrow> q \<noteq> [] \<Longrightarrow> ancestor_ok trie' q"
proof (induction "ancestor_update :: 'a node_info \<Rightarrow> string \<Rightarrow> 'a node_info \<Rightarrow> 'a node_info"
    trie queue cur arbitrary: q rule: bfs_children.induct)
  case (1 trie queue cur)
  show ?case
  proof (cases "queue = []")
    case True
    with "1.prems"(1) have "trie' = trie" by (simp add: bfs_children.simps)
    with "1.prems"(2)[OF "1.prems"(3)] True show ?thesis by simp
  next
    case False
    define p where "p = last queue"
    from bfs_children_Inr[OF "1.prems"(1) False] obtain current where
      current: "node_at trie p = Some current" and
      rec: "bfs_children ancestor_update (set_at p (visit_children ancestor_update current) trie)
              (rev (map (\<lambda>(token, child). p @ [token]) (children current)) @ butlast queue) p
            = Inr (trie', cur')"
      by (auto simp: p_def)
    define trie1 where "trie1 = set_at p (visit_children ancestor_update current) trie"
    define queue1 where
      "queue1 = rev (map (\<lambda>(token, child). p @ [token]) (children current)) @ butlast queue"
    have info1: "info_at trie1 x =
        (if \<exists>t. x = p @ [t] then map_option (ancestor_update (info current) (last x)) (info_at trie x)
         else info_at trie x)" for x
      unfolding trie1_def by (rule info_at_visit[OF current])
    have queue: "set queue = insert p (set (butlast queue))"
      using False unfolding p_def
      by (metis append_butlast_last_id list.simps(15) rotate1.simps(2) set_rotate1)
    have child_queued: "p @ [t] \<in> set queue1" if "info_at trie (p @ t # r) \<noteq> None" for t r
    proof -
      from that current have "map_of (children current) t \<noteq> None"
        by (auto simp: info_at_def node_at_append split: option.splits)
      then obtain c where "(t, c) \<in> set (children current)"
        by (auto dest: map_of_SomeD)
      then show ?thesis by (force simp: queue1_def)
    qed
    have inv1: "ancestor_ok trie1 x" if x: "x \<noteq> []" and nq: "\<forall>p' \<in> set queue1. \<not> strict_prefix p' x" for x
    proof (cases "info_at trie1 x")
      case None
      then show ?thesis by (simp add: ancestor_ok_def)
    next
      case (Some j)
      obtain x0 t where xs: "x = x0 @ [t]" using x by (metis rev_exhaust)
      show ?thesis
      proof (cases "x0 = p")
        case True
        from Some obtain j0 where j0: "info_at trie x = Some j0"
          and j: "j = ancestor_update (info current) t j0"
          by (auto simp: info1 xs True)
        have "info_at trie p = Some (info current)"
          using current by (simp add: info_at_def)
        then have "info_at trie1 p = Some (info current)"
          by (simp add: info1)
        moreover have "butlast x = p" by (simp add: xs True)
        ultimately show ?thesis
          using Some by (auto simp: ancestor_ok_def j ancestor_update_def max_def)
      next
        case False
        then have same: "info_at trie1 x = info_at trie x" by (simp add: info1 xs)
        have valid: "info_at trie x \<noteq> None" using Some same by simp
        have not_child: "\<not> (\<exists>t'. x0 = p @ [t'])"
        proof
          assume "\<exists>t'. x0 = p @ [t']"
          then obtain t' where x0: "x0 = p @ [t']" by blast
          from valid have "p @ [t'] \<in> set queue1"
            using child_queued[of t' "[t]"] by (simp add: xs x0)
          moreover have "strict_prefix (p @ [t']) x"
            by (auto simp: xs x0 strict_prefix_def prefix_def)
          ultimately show False using nq by blast
        qed
        then have same0: "info_at trie1 x0 = info_at trie x0" by (simp add: info1)
        have "\<not> strict_prefix p x"
        proof
          assume "strict_prefix p x"
          then obtain r where r: "x = p @ r" "r \<noteq> []" by (auto simp: strict_prefix_def prefix_def)
          then obtain t' r' where r': "r = t' # r'" by (cases r) auto
          have "r' \<noteq> []" using False r r' xs by auto
          from valid have "p @ [t'] \<in> set queue1"
            using child_queued[of t' r'] by (simp add: r r')
          moreover have "strict_prefix (p @ [t']) x"
            using \<open>r' \<noteq> []\<close> by (auto simp: r r' strict_prefix_def prefix_def)
          ultimately show False using nq by blast
        qed
        moreover have "\<forall>p' \<in> set (butlast queue). \<not> strict_prefix p' x"
          using nq by (simp add: queue1_def)
        ultimately have all: "\<forall>p' \<in> set queue. \<not> strict_prefix p' x" by (simp add: queue)
        have same0': "info_at trie1 (butlast x) = info_at trie (butlast x)"
          using same0 by (simp add: xs)
        from "1.prems"(2)[OF x all] show ?thesis
          unfolding ancestor_ok_def same same0' .
      qed
    qed
    show ?thesis
      by (rule "1.hyps"[OF False current[unfolded p_def] rec[unfolded p_def]])
         (use inv1 "1.prems"(3) in \<open>auto simp: trie1_def queue1_def p_def\<close>)
  qed
qed


lemma bfs_children_returns:
  "(\<forall>p \<in> set queue. info_at trie p \<noteq> None) \<Longrightarrow> info_at trie cur \<noteq> None
    \<Longrightarrow> \<exists>trie' cur'. bfs_children upd trie queue cur = Inr (trie', cur')
          \<and> info_at trie' cur' \<noteq> None \<and> info_at trie' [] = info_at trie []"
proof (induction upd trie queue cur rule: bfs_children.induct)
  case (1 upd trie queue cur)
  show ?case
  proof (cases "queue = []")
    case True
    then show ?thesis using "1.prems" by (simp add: bfs_children.simps)
  next
    case False
    define p where "p = last queue"
    have "p \<in> set queue" using False by (simp add: p_def)
    with "1.prems"(1) obtain current where current: "node_at trie p = Some current"
      by (auto simp: info_at_def)
    define trie1 where "trie1 = set_at p (visit_children upd current) trie"
    define queue1 where
      "queue1 = rev (map (\<lambda>(token, child). p @ [token]) (children current)) @ butlast queue"
    have info1: "info_at trie1 x =
        (if \<exists>t. x = p @ [t] then map_option (upd (info current) (last x)) (info_at trie x)
         else info_at trie x)" for x
      unfolding trie1_def by (rule info_at_visit[OF current])
    have valid: "info_at trie1 x \<noteq> None \<longleftrightarrow> info_at trie x \<noteq> None" for x
      by (simp add: info1)
    have child: "info_at trie (p @ [t]) \<noteq> None" if "(t, c) \<in> set (children current)" for t c
    proof -
      from that have "map_of (children current) t \<noteq> None"
        by (metis domIff dom_map_of_conv_image_fst image_eqI fst_conv)
      then show ?thesis
        using current by (auto simp: info_at_def node_at_append split: option.splits)
    qed
    have q1: "\<forall>x \<in> set queue1. info_at trie1 x \<noteq> None"
    proof
      fix x assume "x \<in> set queue1"
      then have "info_at trie x \<noteq> None"
        using "1.prems"(1) child by (auto simp: queue1_def dest: in_set_butlastD)
      then show "info_at trie1 x \<noteq> None" using valid[of x] by blast
    qed
    have "info_at trie p \<noteq> None"
      using current by (simp add: info_at_def)
    then have p1: "info_at trie1 p \<noteq> None"
      using valid[of p] by blast
    from "1.IH"[OF False current[unfolded p_def], folded p_def,
        OF q1[unfolded queue1_def trie1_def] p1[unfolded trie1_def], folded trie1_def queue1_def]
    obtain trie' cur' where
      "bfs_children upd trie1 queue1 p = Inr (trie', cur')" "info_at trie' cur' \<noteq> None"
      "info_at trie' [] = info_at trie1 []"
      by blast
    moreover have "bfs_children upd trie queue cur = bfs_children upd trie1 queue1 p"
      using False current
      by (subst bfs_children.simps) (simp add: p_def trie1_def queue1_def)
    moreover have "info_at trie1 [] = info_at trie []" by (simp add: info1)
    ultimately show ?thesis by simp
  qed
qed

lemma node_at_butlast:
  "node_at trie cur = Some n \<Longrightarrow> cur \<noteq> [] \<Longrightarrow> \<exists>par. node_at trie (butlast cur) = Some par"
  using node_at_append[of trie "butlast cur" "[last cur]"]
  by (auto split: option.splits)

text \<open>The fields of a node other than \<^verbatim>\<open>best_descendent_score\<close>.\<close>

definition without_descendent :: "'a node_info \<Rightarrow> 'a node_info" where
  "without_descendent i = i\<lparr> best_descendent_score := 0 \<rparr>"

lemma descendent_loop_returns:
  "info_at trie cur \<noteq> None \<Longrightarrow> parent (info trie) = ParentNone
    \<Longrightarrow> \<exists>trie'. descendent_loop trie cur = Inr trie'
          \<and> (\<forall>q. map_option without_descendent (info_at trie' q)
                  = map_option without_descendent (info_at trie q))"
proof (induction trie cur rule: descendent_loop.induct)
  case (1 trie cur)
  from "1.prems"(1) obtain current where current: "node_at trie cur = Some current"
    by (auto simp: info_at_def)
  show ?case
  proof (cases "parent (info current) = ParentOwner")
    case False
    then show ?thesis
      using current by (subst descendent_loop.simps) (auto split: parent_ref.splits)
  next
    case True
    with current "1.prems"(2) have ne: "cur \<noteq> []" by auto
    from node_at_butlast[OF current ne] obtain par where
      par: "node_at trie (butlast cur) = Some par" by blast
    define par' where "par' = Node ((info par)\<lparr> best_descendent_score :=
          (if score (info par) > best_descendent_score (info current)
           then score (info par) else best_descendent_score (info current)) \<rparr>) (children par)"
    define trie1 where "trie1 = set_at (butlast cur) par' trie"
    have info1: "info_at trie1 q = (if q = butlast cur then Some (info par') else info_at trie q)" for q
      unfolding trie1_def by (rule info_at_set_at_info[OF par]) (simp add: par'_def)
    have par_info: "info_at trie (butlast cur) = Some (info par)"
      using par by (simp add: info_at_def)
    have same: "map_option without_descendent (info_at trie1 q)
        = map_option without_descendent (info_at trie q)" for q
      by (simp add: info1 par_info par'_def without_descendent_def)
    show ?thesis
    proof (cases "best_descendent_score (info current) > score (info par)
                  \<or> best_descendent_score (info par) = 0")
      case no: False
      then show ?thesis
        using current par True ne by (subst descendent_loop.simps) auto
    next
      case yes: True
      have v1: "info_at trie1 (butlast cur) \<noteq> None" by (simp add: info1)
      have "info trie1 = (if butlast cur = [] then info par' else info trie)"
        using info1[of "[]"] by (auto simp: info_at_def)
      moreover have "butlast cur = [] \<Longrightarrow> par = trie" using par by simp
      ultimately have r1: "parent (info trie1) = ParentNone"
        using "1.prems"(2) by (auto simp: par'_def)
      from "1.IH"[OF current True ne par yes, folded par'_def,
          OF v1[unfolded trie1_def] r1[unfolded trie1_def], folded trie1_def]
      obtain trie' where "descendent_loop trie1 (butlast cur) = Inr trie'"
        "\<forall>q. map_option without_descendent (info_at trie' q)
              = map_option without_descendent (info_at trie1 q)"
        by blast
      moreover have "descendent_loop trie cur = descendent_loop trie1 (butlast cur)"
        using current par True ne yes
        by (subst descendent_loop.simps) (simp add: par'_def trie1_def)
      ultimately show ?thesis using same by simp
    qed
  qed
qed

text \<open>
  Claim C4: after \<^verbatim>\<open>_propagate_scores\<close>, every node's \<^verbatim>\<open>best_ancestor_score\<close> is
  max(its parent's score, its parent's \<^verbatim>\<open>best_ancestor_score\<close>), over non-root ancestors
  only: the node's own score does not contribute, and a node of depth 1 keeps the initial
  value \<open>-1\<close>.

  The code compares \<^verbatim>\<open>child.score\<close>, not \<^verbatim>\<open>current.score\<close>, with
  \<^verbatim>\<open>current.best_ancestor_score\<close>. After the text \<open>b a\<close> twice, the node \<open>a\<close> of depth 1 has
  score 0 and gets \<^verbatim>\<open>best_ancestor_score\<close> 0, its own score, not \<open>-1\<close>; its child \<open>b\<close> has score
  2 and gets 2, its own score, where the claim gives max(0, -1) = 0.
\<close>

theorem best_ancestor_takes_own_score:
  "(case process_texts plain (AdeftMiner_init plain ''XX'' 100) [''b a'', ''b a''] of
      Inl e \<Rightarrow> False
    | Inr m \<Rightarrow>
       (case propagate_scores (internal_trie m) of
          Inl e \<Rightarrow> False
        | Inr trie \<Rightarrow>
            map_option (\<lambda>n. (score (info n), best_ancestor_score (info n))) (node_at trie [])
              = Some (- 1, - 1)
            \<and> map_option (\<lambda>n. (score (info n), best_ancestor_score (info n))) (node_at trie [''a''])
              = Some (0, 0)
            \<and> map_option (\<lambda>n. (score (info n), best_ancestor_score (info n)))
                 (node_at trie [''a'', ''b''])
              = Some (2, 2)))"
  by code_simp

text \<open>
  Claim C4 as amended: on the trie of a miner (a root whose \<^verbatim>\<open>parent\<close> is \<^verbatim>\<open>None\<close>),
  \<^verbatim>\<open>_propagate_scores\<close> returns, leaves the root's \<^verbatim>\<open>best_ancestor_score\<close> as it was (the
  initial \<open>-1\<close>), and gives every other node as \<^verbatim>\<open>best_ancestor_score\<close> the maximum of its
  own score and its parent's \<^verbatim>\<open>best_ancestor_score\<close>. So the value is the largest score
  among the node itself and its non-root ancestors: the node's own score contributes,
  and a node of depth 1 gets the maximum of its own score and the root's value.
\<close>

theorem best_ancestor_after_propagation:
  assumes "is_root trie"
  shows "\<exists>trie'. propagate_scores trie = Inr trie'
     \<and> best_ancestor_score (info trie') = best_ancestor_score (info trie)
     \<and> (\<forall>p token n. node_at trie' (p @ [token]) = Some n \<longrightarrow>
          (\<exists>par. node_at trie' p = Some par
             \<and> best_ancestor_score (info n)
                 = max (score (info n)) (best_ancestor_score (info par))))"
proof -
  have "\<forall>p \<in> set [[]]. info_at trie p \<noteq> None" "info_at trie [] \<noteq> None"
    by (simp_all add: info_at_def)
  from bfs_children_returns[OF this, of ancestor_update] obtain trie1 cur where
    bfs: "bfs_children ancestor_update trie [[]] [] = Inr (trie1, cur)" and
    cur: "info_at trie1 cur \<noteq> None" and root1: "info_at trie1 [] = info_at trie []"
    by blast
  have ok1: "ancestor_ok trie1 q" if "q \<noteq> []" for q
    by (rule bfs_ancestor_update[OF bfs _ that]) (auto simp: strict_prefix_def)
  from cur obtain current where current: "node_at trie1 cur = Some current"
    by (auto simp: info_at_def)
  define trie2 where "trie2 = set_at cur
      (Node ((info current)\<lparr> best_descendent_score := score (info current) \<rparr>) (children current))
      trie1"
  have info2: "info_at trie2 q = (if q = cur
      then Some ((info current)\<lparr> best_descendent_score := score (info current) \<rparr>)
      else info_at trie1 q)" for q
    unfolding trie2_def using info_at_set_at_info[OF current, of _ q] by simp
  have cur_info: "info_at trie1 cur = Some (info current)"
    using current by (simp add: info_at_def)
  have same2: "map_option without_descendent (info_at trie2 q)
      = map_option without_descendent (info_at trie1 q)" for q
    by (simp add: info2 cur_info without_descendent_def)
  have root_info: "info trie1 = info trie"
    using root1 by (simp add: info_at_def)
  obtain trie' where result: "propagate_scores trie = Inr trie'" and
    same: "\<And>q. map_option without_descendent (info_at trie' q)
              = map_option without_descendent (info_at trie1 q)"
  proof (cases "children current = []")
    case False
    then have "propagate_scores trie = Inr trie1"
      by (simp add: propagate_scores_def bfs current)
    then show ?thesis using that by blast
  next
    case True
    have v2: "info_at trie2 cur \<noteq> None" by (simp add: info2)
    have "info trie2 = (if cur = [] then (info current)\<lparr> best_descendent_score := score (info current) \<rparr>
                        else info trie1)"
      using info2[of "[]"] by (auto simp: info_at_def)
    moreover have "cur = [] \<Longrightarrow> current = trie1" using current by simp
    ultimately have r2: "parent (info trie2) = ParentNone"
      using assms root_info by (auto simp: is_root_def)
    from descendent_loop_returns[OF v2 r2] obtain trie' where
      "descendent_loop trie2 cur = Inr trie'"
      "\<forall>q. map_option without_descendent (info_at trie' q)
            = map_option without_descendent (info_at trie2 q)"
      by blast
    moreover have "propagate_scores trie = descendent_loop trie2 cur"
      by (simp add: propagate_scores_def bfs current True trie2_def)
    ultimately show ?thesis using that same2 by simp
  qed
  have fields: "map_option (\<lambda>i. (score i, best_ancestor_score i)) (info_at trie' q)
      = map_option (\<lambda>i. (score i, best_ancestor_score i)) (info_at trie1 q)" for q
    using arg_cong[OF same[of q], of "map_option (\<lambda>i. (score i, best_ancestor_score i))"]
    by (simp add: option.map_comp o_def without_descendent_def)
  have ok: "ancestor_ok trie' q" if "q \<noteq> []" for q
    using ok1[OF that] fields[of q] fields[of "butlast q"]
    by (auto simp: ancestor_ok_def split: option.splits)
  have "best_ancestor_score (info trie') = best_ancestor_score (info trie)"
    using fields[of "[]"] root_info by (simp add: info_at_def)
  moreover have "\<exists>par. node_at trie' p = Some par
      \<and> best_ancestor_score (info n) = max (score (info n)) (best_ancestor_score (info par))"
    if "node_at trie' (p @ [token]) = Some n" for p token n
    using ok[of "p @ [token]"] that by (auto simp: ancestor_ok_def info_at_def split: option.splits)
  ultimately show ?thesis using result by blast
qed


text \<open>The trie after the text \<open>b a\<close> twice, for the witness.\<close>

theorem best_ancestor_after_propagation_witness:
  "is_root (Node (info (TrieNode_init plain [] ParentNone (Some ''XX'')))
        [(''a'', Node ((info (TrieNode_init plain [''a''] ParentOwner None))
                    \<lparr> count := Some 2, sum_ft := Some 2, sum_ft2 := Some 4, score := 0 \<rparr>)
            [(''b'', Node ((info (TrieNode_init plain [''a'', ''b''] ParentOwner None))
                        \<lparr> count := Some 2, score := 2 \<rparr>) [])])])
   \<and> (\<exists>trie' n par.
        propagate_scores (Node (info (TrieNode_init plain [] ParentNone (Some ''XX'')))
          [(''a'', Node ((info (TrieNode_init plain [''a''] ParentOwner None))
                      \<lparr> count := Some 2, sum_ft := Some 2, sum_ft2 := Some 4, score := 0 \<rparr>)
              [(''b'', Node ((info (TrieNode_init plain [''a'', ''b''] ParentOwner None))
                          \<lparr> count := Some 2, score := 2 \<rparr>) [])])]) = Inr trie'
        \<and> node_at trie' [''a'', ''b''] = Some n \<and> node_at trie' [''a''] = Some par
        \<and> best_ancestor_score (info n) = max (score (info n)) (best_ancestor_score (info par)))"
proof -
  define trie :: "unit node" where
    "trie = Node (info (TrieNode_init plain [] ParentNone (Some ''XX'')))
        [(''a'', Node ((info (TrieNode_init plain [''a''] ParentOwner None))
                    \<lparr> count := Some 2, sum_ft := Some 2, sum_ft2 := Some 4, score := 0 \<rparr>)
            [(''b'', Node ((info (TrieNode_init plain [''a'', ''b''] ParentOwner None))
                        \<lparr> count := Some 2, score := 2 \<rparr>) [])])]"
  have top: "is_root trie"
    by (simp add: trie_def is_root_def TrieNode_init_def)
  have there: "(case propagate_scores trie of
                  Inl e \<Rightarrow> False | Inr t \<Rightarrow> node_at t [''a'', ''b''] \<noteq> None)"
    unfolding trie_def by code_simp
  from best_ancestor_after_propagation[OF top] obtain trie' where
    result: "propagate_scores trie = Inr trie'" and
    step: "\<And>p token n. node_at trie' (p @ [token]) = Some n \<Longrightarrow>
        \<exists>par. node_at trie' p = Some par
          \<and> best_ancestor_score (info n) = max (score (info n)) (best_ancestor_score (info par))"
    by blast
  from there result obtain n where n: "node_at trie' [''a'', ''b''] = Some n"
    by auto
  from step[of "[''a'']" "''b''" n] n obtain par where
    "node_at trie' [''a''] = Some par"
    "best_ancestor_score (info n) = max (score (info n)) (best_ancestor_score (info par))"
    by auto
  with top result n show ?thesis
    unfolding trie_def by blast
qed


section \<open>The statistics of a trie built by ingestion and merging\<close>

text \<open>
  The fields \<^verbatim>\<open>sum_ft\<close>, \<^verbatim>\<open>sum_ft2\<close> and \<^verbatim>\<open>score\<close> are maintained incrementally by
  \<^verbatim>\<open>update_likelihood\<close>. \<open>sound\<close> says that a node's fields agree with a recomputation from
  its children, \<open>trie_inv\<close> that the top node is the root and every node below it is
  sound. Scores are exact rationals here; the program computes them in floating point.
\<close>

definition node_count :: "'a node \<Rightarrow> int" where
  "node_count n = (case count (info n) of None \<Rightarrow> 0 | Some c \<Rightarrow> c)"

definition child_sum :: "'a node \<Rightarrow> int" where
  "child_sum n = sum_list (map (\<lambda>(t, c). node_count c) (children n))"

definition child_squares :: "'a node \<Rightarrow> int" where
  "child_squares n = sum_list (map (\<lambda>(t, c). (node_count c)\<^sup>2) (children n))"

definition sound :: "'a node \<Rightarrow> bool" where
  "sound n =
     (parent (info n) \<noteq> ParentNone
      \<and> distinct (map fst (children n))
      \<and> (\<exists>c. count (info n) = Some c \<and> 1 \<le> c)
      \<and> sum_ft (info n) = Some (child_sum n)
      \<and> sum_ft2 (info n) = Some (child_squares n)
      \<and> score (info n) =
          of_int (node_count n) - (if child_sum n = 0 then 0
                            else of_int (child_squares n) / of_int (child_sum n))
      \<and> child_sum n \<le> node_count n)"

definition below_sound :: "'a node \<Rightarrow> bool" where
  "below_sound n = (distinct (map fst (children n)) \<and>
                    (\<forall>q m. q \<noteq> [] \<longrightarrow> node_at n q = Some m \<longrightarrow> sound m))"

definition trie_inv :: "'a node \<Rightarrow> bool" where
  "trie_inv trie = (is_root trie \<and> below_sound trie)"

lemma below_sound_child:
  "below_sound n \<Longrightarrow> map_of (children n) t = Some c \<Longrightarrow> sound c \<and> below_sound c"
proof -
  assume b: "below_sound n" and c: "map_of (children n) t = Some c"
  have "sound c" using b c unfolding below_sound_def
    by (metis list.distinct(1) node_at.simps option.simps(5))
  moreover have "sound m" if "q \<noteq> []" "node_at c q = Some m" for q m
    using b c that unfolding below_sound_def
    by (metis list.distinct(1) node_at.simps(2) option.simps(5))
  ultimately show ?thesis
    by (auto simp: below_sound_def sound_def)
qed

lemma below_sound_intro:
  assumes "distinct (map fst (children n))"
    and "\<And>t c. map_of (children n) t = Some c \<Longrightarrow> sound c \<and> below_sound c"
  shows "below_sound n"
  unfolding below_sound_def
proof (intro conjI allI impI)
  fix q m assume "q \<noteq> []" "node_at n q = Some m"
  then obtain t r c where q: "q = t # r" and c: "map_of (children n) t = Some c"
    and m: "node_at c r = Some m"
    by (cases q) (auto split: option.splits)
  from assms(2)[OF c] m show "sound m"
    by (cases "r = []") (auto simp: below_sound_def)
qed (rule assms(1))

lemma node_count_pos: "sound c \<Longrightarrow> 1 \<le> node_count c"
  by (auto simp: sound_def node_count_def)

lemma child_sum_nonneg:
  "below_sound n \<Longrightarrow> 0 \<le> child_sum n"
proof -
  assume b: "below_sound n"
  have "0 \<le> node_count c" if "(t, c) \<in> set (children n)" for t c
  proof -
    from b that have "map_of (children n) t = Some c"
      by (simp add: below_sound_def)
    from below_sound_child[OF b this] show ?thesis using node_count_pos by force
  qed
  then show ?thesis
    unfolding child_sum_def by (intro sum_list_nonneg) auto
qed


lemma update_likelihood_value:
  assumes "sum_ft (info n) = Some S" and "sum_ft2 (info n) = Some Q"
    and "score (info n) = x - (if S = 0 then 0 else of_int Q / of_int S)"
    and "S + inc \<noteq> 0"
  shows "update_likelihood n k inc =
     Inr (Node ((info n)\<lparr> sum_ft := Some (S + inc),
                           sum_ft2 := Some (Q + (2 * k * inc - inc\<^sup>2)),
                           score := x - of_int (Q + (2 * k * inc - inc\<^sup>2)) / of_int (S + inc) \<rparr>)
               (children n))"
  using assms by (simp add: update_likelihood_def Let_def)

lemma sum_list_update_present:
  "map_of cs t = Some c \<Longrightarrow>
     sum_list (map (\<lambda>(t, c). f c) (AList.update t c' cs))
       = sum_list (map (\<lambda>(t, c). f c) cs) - f c + (f c' :: int)"
  by (induction cs) (auto split: if_splits)

lemma sum_list_update_absent:
  "map_of cs t = None \<Longrightarrow>
     sum_list (map (\<lambda>(t, c). f c) (AList.update t c' cs))
       = sum_list (map (\<lambda>(t, c). f c) cs) + (f c' :: int)"
  by (induction cs) (auto split: if_splits)

lemma child_sum_update_present:
  "map_of (children n) t = Some c \<Longrightarrow>
     child_sum (Node i (AList.update t c' (children n))) = child_sum n - node_count c + node_count c'"
  by (simp add: child_sum_def sum_list_update_present)

lemma child_squares_update_present:
  "map_of (children n) t = Some c \<Longrightarrow>
     child_squares (Node i (AList.update t c' (children n)))
       = child_squares n - (node_count c)\<^sup>2 + (node_count c')\<^sup>2"
  by (simp add: child_squares_def sum_list_update_present)

lemma child_sum_update_absent:
  "map_of (children n) t = None \<Longrightarrow>
     child_sum (Node i (AList.update t c' (children n))) = child_sum n + node_count c'"
  by (simp add: child_sum_def sum_list_update_absent)

lemma child_squares_update_absent:
  "map_of (children n) t = None \<Longrightarrow>
     child_squares (Node i (AList.update t c' (children n))) = child_squares n + (node_count c')\<^sup>2"
  by (simp add: child_squares_def sum_list_update_absent)

lemma below_sound_update:
  assumes "below_sound n" and "sound c'" and "below_sound c'"
  shows "below_sound (Node i (AList.update t c' (children n)))"
proof (rule below_sound_intro)
  show "distinct (map fst (children (Node i (AList.update t c' (children n)))))"
    using assms(1) by (simp add: below_sound_def distinct_update)
next
  fix u c assume "map_of (children (Node i (AList.update t c' (children n)))) u = Some c"
  then have "(u = t \<and> c = c') \<or> map_of (children n) u = Some c"
    by (auto simp: update_conv' split: if_splits)
  then show "sound c \<and> below_sound c"
    using assms below_sound_child[OF assms(1)] by auto
qed

lemma child_sum_same_children [simp]:
  "child_sum (Node i (children c)) = child_sum c"
  "child_squares (Node i (children c)) = child_squares c"
  by (simp_all add: child_sum_def child_squares_def)

lemma sound_increment:
  assumes "sound c" and "count (info c) = Some k" and "0 \<le> d"
  shows "sound (Node ((info c)\<lparr> count := Some (k + d), score := score (info c) + of_int d \<rparr>)
                 (children c))"
proof -
  have "node_count c = k" using assms(2) by (simp add: node_count_def)
  then show ?thesis
    using assms unfolding sound_def by (simp add: node_count_def)
qed

lemma below_sound_children:
  assumes "children n' = children n"
  shows "below_sound n' = below_sound n"
proof -
  have "node_at n' q = node_at n q" if "q \<noteq> []" for q
    using that assms by (cases q) simp_all
  then show ?thesis
    by (simp add: below_sound_def assms cong: imp_cong)
qed

lemma below_sound_leaf: "below_sound (Node i [])"
  by (rule below_sound_intro) simp_all

text \<open>A node that is sound, seen from the loop of \<open>_add\<close>: its count has been raised
  already, the sum over its children not yet.\<close>

lemma add_loop_sound:
  assumes "below_sound current"
    and "\<not> is_root current \<Longrightarrow> sound current"
    and "\<not> is_root current \<Longrightarrow> tokens \<noteq> [] \<Longrightarrow> child_sum current + 1 \<le> node_count current"
  shows "\<exists>current' lfs'. add_loop ext current lfs tokens = Inr (current', lfs')
      \<and> below_sound current' \<and> (\<not> is_root current \<longrightarrow> sound current')
      \<and> parent (info current') = parent (info current)
      \<and> count (info current') = count (info current)"
  using assms
proof (induction tokens arbitrary: current lfs)
  case Nil
  then show ?case by simp
next
  case (Cons token tokens)
  note below = Cons.prems(1)
  have nonneg: "0 \<le> child_sum current" by (rule child_sum_nonneg[OF below])
  \<comment> \<open>the likelihood update of \<open>current\<close> for a child whose count goes from \<open>k - 1\<close> to \<open>k\<close>\<close>
  have upd: "\<exists>current1. update_likelihood current k 1 = Inr current1
        \<and> children current1 = children current
        \<and> parent (info current1) = parent (info current)
        \<and> count (info current1) = count (info current)
        \<and> longform (info current1) = longform (info current)
        \<and> sum_ft (info current1) = Some (child_sum current + 1)
        \<and> sum_ft2 (info current1) = Some (child_squares current + (2 * k - 1))
        \<and> score (info current1) = of_int (node_count current)
             - of_int (child_squares current + (2 * k - 1)) / of_int (child_sum current + 1)"
    if "\<not> is_root current" for k
  proof -
    from Cons.prems(2)[OF that] have s: "sound current" .
    have "child_sum current + 1 \<noteq> 0" using nonneg by simp
    from update_likelihood_value[of current "child_sum current" "child_squares current"
        "of_int (node_count current)" 1 k, OF _ _ _ this] s
    show ?thesis by (simp add: sound_def)
  qed
  show ?case
  proof (cases "map_of (children current) token")
    case None
    define new :: "'a node" where
      "new = TrieNode_init ext (longform (info current) @ [token]) ParentOwner None"
    have new_sound: "sound new" "below_sound new" "\<not> is_root new" "child_sum new + 1 \<le> node_count new"
      "node_count new = 1" "count (info new) = Some 1"
      by (simp_all add: new_def TrieNode_init_def sound_def below_sound_leaf is_root_def
          child_sum_def child_squares_def node_count_def)
    obtain current1 lfs1 where
      first: "(if \<not> is_root current
               then (case update_likelihood current 1 1 of
                       Inl e \<Rightarrow> Inl e
                     | Inr current1 \<Rightarrow>
                         Inr (current1,
                              AList.update (rev (longform (info current1)))
                                (score (info current1)) lfs))
               else Inr (current, lfs)) = Inr (current1, lfs1)"
      and c1: "children current1 = children current"
        "parent (info current1) = parent (info current)"
        "count (info current1) = count (info current)"
      and stats1: "\<not> is_root current \<Longrightarrow>
          sum_ft (info current1) = Some (child_sum current + 1)
          \<and> sum_ft2 (info current1) = Some (child_squares current + 1)
          \<and> score (info current1) = of_int (node_count current)
               - of_int (child_squares current + 1) / of_int (child_sum current + 1)"
    proof (cases "is_root current")
      case True
      then show ?thesis using that[of current lfs] by simp
    next
      case False
      from upd[OF False, of 1] obtain current1 where
        "update_likelihood current 1 1 = Inr current1" "children current1 = children current"
        "parent (info current1) = parent (info current)"
        "count (info current1) = count (info current)"
        "sum_ft (info current1) = Some (child_sum current + 1)"
        "sum_ft2 (info current1) = Some (child_squares current + 1)"
        "score (info current1) = of_int (node_count current)
             - of_int (child_squares current + 1) / of_int (child_sum current + 1)"
        by auto
      then show ?thesis using that[of current1] False by simp
    qed
    define lfs2 where "lfs2 = AList.update (rev (longform (info new))) (score (info new)) lfs1"
    from Cons.IH[of new lfs2, OF new_sound(2)] new_sound obtain new' lfs3 where
      rec: "add_loop ext new lfs2 tokens = Inr (new', lfs3)" and
      new': "below_sound new'" "sound new'" "count (info new') = count (info new)"
      by auto
    have count_new': "node_count new' = 1" using new'(3) new_sound(6) by (simp add: node_count_def)
    define result where
      "result = Node (info current1) (AList.update token new' (children current1))"
    have res: "add_loop ext current lfs (token # tokens) = Inr (result, lfs3)"
      using None first rec
      by (simp add: new_def[symmetric] Let_def lfs2_def[symmetric] result_def)
    have below': "below_sound result"
      unfolding result_def c1 by (rule below_sound_update[OF below new'(2,1)])
    have sums: "child_sum result = child_sum current + 1"
      "child_squares result = child_squares current + 1"
      unfolding result_def c1
      by (simp_all add: child_sum_update_absent[OF None] child_squares_update_absent[OF None]
          count_new')
    have "sound result" if nr: "\<not> is_root current"
    proof -
      from Cons.prems(2)[OF nr] have s: "sound current" .
      from Cons.prems(3)[OF nr] have slack: "child_sum current + 1 \<le> node_count current" by simp
      have "node_count result = node_count current" by (simp add: result_def node_count_def c1)
      moreover have "child_sum current + 1 \<noteq> 0" using nonneg by simp
      ultimately show ?thesis
        using s stats1[OF nr] slack below'
        by (simp add: sound_def sums below_sound_def) (simp add: result_def c1)
    qed
    then show ?thesis
      using res below' by (simp add: result_def c1)
  next
    case (Some child)
    from below_sound_child[OF below Some] have child: "sound child" "below_sound child" by auto
    then obtain k where k: "count (info child) = Some k" "1 \<le> k" by (auto simp: sound_def)
    define child1 where "child1 = Node ((info child)\<lparr> count := Some (k + 1),
                                 score := score (info child) + 1 \<rparr>) (children child)"
    have inc: "increment_count child 1 = Inr child1"
      by (simp add: increment_count_def k child1_def)
    have sums1: "node_count child = k" "node_count child1 = k + 1" "child_sum child1 = child_sum child"
      "child_squares child1 = child_squares child"
      by (simp_all add: child1_def node_count_def k child_sum_def child_squares_def)
    have "below_sound child1"
      using child(2) below_sound_children[of child1 child] by (simp add: child1_def)
    moreover have "sound child1"
      using sound_increment[OF child(1) k(1), of 1] by (simp add: child1_def)
    moreover have "\<not> is_root child1"
      using child(1) by (simp add: sound_def is_root_def child1_def)
    moreover have "child_sum child1 + 1 \<le> node_count child1"
      using child(1) sums1 by (simp add: sound_def)
    moreover have "count (info child1) = Some (k + 1)" by (simp add: child1_def)
    ultimately have child1: "sound child1" "below_sound child1" "\<not> is_root child1"
      "child_sum child1 + 1 \<le> node_count child1" "count (info child1) = Some (k + 1)"
      by blast+
    define lfs1 where
      "lfs1 = AList.update (rev (longform (info child1))) (score (info child1)) lfs"
    obtain current1 lfs2 where
      first: "(if \<not> is_root current
               then (case count (info child1) of
                       None \<Rightarrow> Inl AttributeError
                     | Some cnt \<Rightarrow>
                        (case update_likelihood current cnt 1 of
                           Inl e \<Rightarrow> Inl e
                         | Inr current1 \<Rightarrow>
                             Inr (current1,
                                  AList.update (rev (longform (info current1)))
                                    (score (info current1)) lfs1)))
               else Inr (current, lfs1)) = Inr (current1, lfs2)"
      and c1: "children current1 = children current"
        "parent (info current1) = parent (info current)"
        "count (info current1) = count (info current)"
      and stats1: "\<not> is_root current \<Longrightarrow>
          sum_ft (info current1) = Some (child_sum current + 1)
          \<and> sum_ft2 (info current1) = Some (child_squares current + (2 * (k + 1) - 1))
          \<and> score (info current1) = of_int (node_count current)
               - of_int (child_squares current + (2 * (k + 1) - 1)) / of_int (child_sum current + 1)"
    proof (cases "is_root current")
      case True
      then show ?thesis using that[of current lfs1] by simp
    next
      case False
      from upd[OF False, of "k + 1"] obtain current1 where
        "update_likelihood current (k + 1) 1 = Inr current1" "children current1 = children current"
        "parent (info current1) = parent (info current)"
        "count (info current1) = count (info current)"
        "sum_ft (info current1) = Some (child_sum current + 1)"
        "sum_ft2 (info current1) = Some (child_squares current + (2 * (k + 1) - 1))"
        "score (info current1) = of_int (node_count current)
             - of_int (child_squares current + (2 * (k + 1) - 1)) / of_int (child_sum current + 1)"
        by auto
      then show ?thesis using that[of current1] False child1(5) by simp
    qed
    from Cons.IH[of child1 lfs2, OF child1(2)] child1 obtain child' lfs3 where
      rec: "add_loop ext child1 lfs2 tokens = Inr (child', lfs3)" and
      child': "below_sound child'" "sound child'" "count (info child') = count (info child1)"
      by auto
    have count_child': "node_count child' = k + 1" using child'(3) child1(5) by (simp add: node_count_def)
    define result where
      "result = Node (info current1) (AList.update token child' (children current1))"
    have res: "add_loop ext current lfs (token # tokens) = Inr (result, lfs3)"
      using Some inc first rec
      by (simp add: Let_def lfs1_def[symmetric] result_def)
    have below': "below_sound result"
      unfolding result_def c1 by (rule below_sound_update[OF below child'(2,1)])
    have sums: "child_sum result = child_sum current + 1"
      "child_squares result = child_squares current + (2 * (k + 1) - 1)"
      unfolding result_def c1
      by (simp_all add: child_sum_update_present[OF Some] child_squares_update_present[OF Some]
          count_child' sums1 power2_eq_square algebra_simps)
    have "sound result" if nr: "\<not> is_root current"
    proof -
      from Cons.prems(2)[OF nr] have s: "sound current" .
      from Cons.prems(3)[OF nr] have slack: "child_sum current + 1 \<le> node_count current" by simp
      have "node_count result = node_count current" by (simp add: result_def node_count_def c1)
      moreover have "child_sum current + 1 \<noteq> 0" using nonneg by simp
      ultimately show ?thesis
        using s stats1[OF nr] slack below'
        by (simp add: sound_def sums below_sound_def) (simp add: result_def c1)
    qed
    then show ?thesis
      using res below' by (simp add: result_def c1)
  qed
qed


definition stats ::
  "'a node \<Rightarrow> (parent_ref \<times> int option \<times> int option \<times> int option \<times> rat) \<times> (string \<times> int option) list" where
  "stats n = ((parent (info n), count (info n), sum_ft (info n), sum_ft2 (info n), score (info n)),
              map (\<lambda>(t, c). (t, count (info c))) (children n))"

lemma stats_eq_sums:
  assumes "stats n = stats n'"
  shows "child_sum n = child_sum n'" "child_squares n = child_squares n'"
    "node_count n = node_count n'" "map fst (children n) = map fst (children n')"
proof -
  from assms have eq: "map (\<lambda>(t, c). (t, count (info c))) (children n)
      = map (\<lambda>(t, c). (t, count (info c))) (children n')"
    by (simp add: stats_def)
  from arg_cong[OF eq, of "map (\<lambda>(t, k). case k of None \<Rightarrow> 0 | Some c \<Rightarrow> c)"]
  have counts: "map (\<lambda>(t, c). node_count c) (children n)
      = map (\<lambda>(t, c). node_count c) (children n')"
    by (simp add: node_count_def case_prod_unfold o_def)
  then show "child_sum n = child_sum n'"
    unfolding child_sum_def by simp
  from arg_cong[OF counts, of "map (\<lambda>k. k\<^sup>2)"]
  have "map (\<lambda>(t, c). (node_count c)\<^sup>2) (children n)
      = map (\<lambda>(t, c). (node_count c)\<^sup>2) (children n')"
    by (simp add: case_prod_unfold o_def)
  then show "child_squares n = child_squares n'"
    unfolding child_squares_def by simp
  show "node_count n = node_count n'"
    using assms by (simp add: stats_def node_count_def)
  from arg_cong[OF eq, of "map fst"]
  show "map fst (children n) = map fst (children n')"
    by (simp add: case_prod_unfold o_def)
qed

lemma stats_eq_sound: "stats n = stats n' \<Longrightarrow> sound n = sound n'"
  using stats_eq_sums[of n n'] by (auto simp: sound_def stats_def)

definition stats_at where
  "stats_at trie q = map_option stats (node_at trie q)"

lemma map_stats_update:
  "map_of cs t = Some c \<Longrightarrow> count (info c') = count (info c)
    \<Longrightarrow> map (\<lambda>(t, c). (t, count (info c))) (AList.update t c' cs)
        = map (\<lambda>(t, c). (t, count (info c))) cs"
  by (induction cs) (auto split: if_splits)

lemma stats_at_set_at_other:
  "node_at trie p = Some n \<Longrightarrow> count (info n') = count (info n) \<Longrightarrow> \<not> prefix p q
    \<Longrightarrow> stats_at (set_at p n' trie) q = stats_at trie q"
proof (induction p arbitrary: trie q)
  case Nil
  then show ?case by simp
next
  case (Cons t ts)
  from Cons.prems(1) obtain c where c: "map_of (children trie) t = Some c"
    and n: "node_at c ts = Some n"
    by (auto split: option.splits)
  have same_count: "count (info (set_at ts n' c)) = count (info c)"
    using n Cons.prems(2) by (cases ts) (auto split: option.splits)
  show ?case
  proof (cases q)
    case Nil
    then show ?thesis
      by (simp add: stats_at_def c stats_def map_stats_update[OF c same_count])
  next
    case q: (Cons u q')
    show ?thesis
    proof (cases "u = t")
      case True
      with Cons.prems(3) q have "\<not> prefix ts q'" by simp
      from Cons.IH[OF n Cons.prems(2) this] show ?thesis
        by (simp add: stats_at_def q True c update_conv')
    next
      case False
      then show ?thesis by (simp add: stats_at_def q c update_conv')
    qed
  qed
qed

definition pending :: "(string list \<times> 'a node) list \<Rightarrow> string list \<Rightarrow> int" where
  "pending agenda q = sum_list (map (\<lambda>(p, d). if p = q then node_count d else 0) agenda)"

lemma pending_simps [simp]:
  "pending [] q = 0"
  "pending ((p, d) # agenda) q = (if p = q then node_count d else 0) + pending agenda q"
  "pending (xs @ ys) q = pending xs q + pending ys q"
  by (simp_all add: pending_def)

definition node_ok :: "(string list \<times> 'a node) list \<Rightarrow> 'a node \<Rightarrow> string list \<Rightarrow> bool" where
  "node_ok agenda trie q =
     (case node_at trie q of
        None \<Rightarrow> True
      | Some m \<Rightarrow> sound m \<and> child_sum m + pending agenda q \<le> node_count m)"

lemma node_ok_other:
  assumes "node_at trie p = Some n" and "count (info n') = count (info n)" and "\<not> prefix p q"
    and "pending agenda' q = pending agenda q" and "node_ok agenda trie q"
  shows "node_ok agenda' (set_at p n' trie) q"
proof -
  from stats_at_set_at_other[OF assms(1-3)]
  have eq: "stats_at (set_at p n' trie) q = stats_at trie q" .
  show ?thesis
  proof (cases "node_at (set_at p n' trie) q")
    case None
    then show ?thesis by (simp add: node_ok_def)
  next
    case (Some m')
    with eq have "map_option stats (node_at trie q) = Some (stats m')"
      by (simp add: stats_at_def)
    then obtain m where m: "node_at trie q = Some m" and st: "stats m' = stats m"
      by (cases "node_at trie q") auto
    from assms(5) m have "sound m" "child_sum m + pending agenda q \<le> node_count m"
      by (auto simp: node_ok_def)
    then show ?thesis
      using Some stats_eq_sound[OF st] stats_eq_sums[OF st] assms(4)
      by (simp add: node_ok_def)
  qed
qed


definition merged_child :: "'a node \<Rightarrow> string \<Rightarrow> 'a node \<Rightarrow> 'a node" where
  "merged_child left token child =
     (case map_of (children left) token of
        None \<Rightarrow> Node ((info child)\<lparr> parent := ParentCopy \<rparr>) (children child)
      | Some current \<Rightarrow>
          Node ((info current)\<lparr> count := Some (node_count current + node_count child),
                                 score := score (info current) + of_int (node_count child) \<rparr>)
               (children current))"

lemma merge_child_result:
  assumes below: "below_sound left"
    and left: "\<not> is_root left \<Longrightarrow> sound left"
    and d: "sound d"
  shows "\<exists>left' lfs'.
      merge_child left lfs token d = Inr (left', lfs', map_of (children left) token \<noteq> None)
      \<and> children left' = AList.update token (merged_child left token d) (children left)
      \<and> parent (info left') = parent (info left)
      \<and> count (info left') = count (info left)
      \<and> (\<not> is_root left \<longrightarrow> child_sum left + node_count d \<le> node_count left \<longrightarrow> sound left')"
proof -
  from d obtain kd where kd: "count (info d) = Some kd" "1 \<le> kd" "node_count d = kd"
    by (auto simp: sound_def node_count_def)
  define X where "X = merged_child left token d"
  define left1 where "left1 = Node (info left) (AList.update token X (children left))"
  have root1: "is_root left1 = is_root left" by (simp add: left1_def is_root_def)
  have count_X: "node_count X =
      (case map_of (children left) token of None \<Rightarrow> kd | Some current \<Rightarrow> node_count current + kd)"
    by (simp add: X_def merged_child_def node_count_def kd split: option.splits)
  have sums: "child_sum left1 = child_sum left + kd"
    "child_squares left1 = child_squares left +
       (case map_of (children left) token of
          None \<Rightarrow> kd\<^sup>2
        | Some current \<Rightarrow> 2 * (node_count current + kd) * kd - kd\<^sup>2)"
    unfolding left1_def
    by (cases "map_of (children left) token";
        simp add: child_sum_update_absent child_squares_update_absent
          child_sum_update_present child_squares_update_present count_X power2_eq_square
          algebra_simps)+
  have nonneg: "0 \<le> child_sum left" by (rule child_sum_nonneg[OF below])
  \<comment> \<open>the likelihood update of \<open>left1\<close>\<close>
  have upd: "\<exists>left2. update_likelihood left1 k kd = Inr left2
        \<and> children left2 = children left1
        \<and> parent (info left2) = parent (info left)
        \<and> count (info left2) = count (info left)
        \<and> sum_ft (info left2) = Some (child_sum left + kd)
        \<and> sum_ft2 (info left2) = Some (child_squares left + (2 * k * kd - kd\<^sup>2))
        \<and> score (info left2) = of_int (node_count left)
             - of_int (child_squares left + (2 * k * kd - kd\<^sup>2)) / of_int (child_sum left + kd)"
    if "\<not> is_root left" for k
  proof -
    from left[OF that] have s: "sound left" .
    have "child_sum left + kd \<noteq> 0" using nonneg kd(2) by simp
    from update_likelihood_value[of left1 "child_sum left" "child_squares left"
        "of_int (node_count left)" kd k, OF _ _ _ this] s
    show ?thesis by (simp add: sound_def left1_def node_count_def)
  qed
  have sound2: "sound left2"
    if nr: "\<not> is_root left" and slack: "child_sum left + node_count d \<le> node_count left"
      and l2: "children left2 = children left1" "parent (info left2) = parent (info left)"
        "count (info left2) = count (info left)"
        "sum_ft (info left2) = Some (child_sum left1)"
        "sum_ft2 (info left2) = Some (child_squares left1)"
        "score (info left2) = of_int (node_count left)
             - of_int (child_squares left1) / of_int (child_sum left1)"
    for left2
  proof -
    from left[OF nr] have s: "sound left" .
    have same: "child_sum left2 = child_sum left1" "child_squares left2 = child_squares left1"
      by (simp_all add: child_sum_def child_squares_def l2(1))
    have "node_count left2 = node_count left" by (simp add: node_count_def l2(3))
    moreover have "child_sum left1 \<noteq> 0" using nonneg kd(2) by (simp add: sums)
    moreover have "distinct (map fst (children left2))"
      using below by (simp add: l2(1) left1_def below_sound_def distinct_update)
    ultimately show ?thesis
      using s l2 slack kd(3) unfolding sound_def same by (simp add: sums(1))
  qed
  show ?thesis
  proof (cases "map_of (children left) token")
    case None
    have X: "X = Node ((info d)\<lparr> parent := ParentCopy \<rparr>) (children d)"
      by (simp add: X_def merged_child_def None)
    show ?thesis
    proof (cases "is_root left")
      case True
      then have "merge_child left lfs token d = Inr (left1, lfs, False)"
        by (simp add: merge_child_def None Let_def left1_def[unfolded X, symmetric] root1)
      then show ?thesis using True None by (auto simp: left1_def X_def)
    next
      case False
      from upd[OF False, of kd] obtain left2 where l2:
        "update_likelihood left1 kd kd = Inr left2" "children left2 = children left1"
        "parent (info left2) = parent (info left)" "count (info left2) = count (info left)"
        "sum_ft (info left2) = Some (child_sum left + kd)"
        "sum_ft2 (info left2) = Some (child_squares left + (2 * kd * kd - kd\<^sup>2))"
        "score (info left2) = of_int (node_count left)
             - of_int (child_squares left + (2 * kd * kd - kd\<^sup>2)) / of_int (child_sum left + kd)"
        by blast
      have sq: "child_squares left + (2 * kd * kd - kd\<^sup>2) = child_squares left1"
        by (simp add: sums None power2_eq_square)
      have "merge_child left lfs token d =
          Inr (left2, AList.update (rev (longform (info left2))) (score (info left2)) lfs, False)"
        using False l2(1)
        by (simp add: merge_child_def None Let_def left1_def[unfolded X, symmetric] root1 kd)
      moreover have "child_sum left + node_count d \<le> node_count left \<Longrightarrow> sound left2"
        by (rule sound2[OF False _ l2(2,3,4) l2(5)[folded sums(1)] l2(6)[unfolded sq]
              l2(7)[unfolded sq, folded sums(1)]])
      ultimately show ?thesis using None l2 by (auto simp: left1_def X_def)
    qed
  next
    case (Some current)
    from below_sound_child[OF below Some] have cur: "sound current" by simp
    then obtain kc where kc: "count (info current) = Some kc" "node_count current = kc"
      by (auto simp: sound_def node_count_def)
    have X: "X = Node ((info current)\<lparr> count := Some (kc + kd),
                 score := score (info current) + of_int kd \<rparr>) (children current)"
      by (simp add: X_def merged_child_def Some kc kd)
    have inc: "increment_count current kd = Inr X"
      by (simp add: increment_count_def kc X)
    have cX: "count (info X) = Some (kc + kd)" by (simp add: X)
    show ?thesis
    proof (cases "is_root left")
      case True
      then have "merge_child left lfs token d =
          Inr (left1, AList.update (rev (longform (info X))) (score (info X)) lfs, True)"
        by (simp add: merge_child_def Some Let_def kd inc left1_def[symmetric] root1)
      then show ?thesis using True Some by (auto simp: left1_def X_def)
    next
      case False
      from upd[OF False, of "kc + kd"] obtain left2 where l2:
        "update_likelihood left1 (kc + kd) kd = Inr left2" "children left2 = children left1"
        "parent (info left2) = parent (info left)" "count (info left2) = count (info left)"
        "sum_ft (info left2) = Some (child_sum left + kd)"
        "sum_ft2 (info left2) = Some (child_squares left + (2 * (kc + kd) * kd - kd\<^sup>2))"
        "score (info left2) = of_int (node_count left)
             - of_int (child_squares left + (2 * (kc + kd) * kd - kd\<^sup>2))
               / of_int (child_sum left + kd)"
        by blast
      have sq: "child_squares left + (2 * (kc + kd) * kd - kd\<^sup>2) = child_squares left1"
        by (simp add: sums Some kc)
      have "merge_child left lfs token d =
          Inr (left2, AList.update (rev (longform (info left2))) (score (info left2))
                        (AList.update (rev (longform (info X))) (score (info X)) lfs), True)"
        using False l2(1)
        by (simp add: merge_child_def Some Let_def kd inc left1_def[symmetric] root1 cX)
      moreover have "child_sum left + node_count d \<le> node_count left \<Longrightarrow> sound left2"
        by (rule sound2[OF False _ l2(2,3,4) l2(5)[folded sums(1)] l2(6)[unfolded sq]
              l2(7)[unfolded sq, folded sums(1)]])
      ultimately show ?thesis using Some l2 by (auto simp: left1_def X_def)
    qed
  qed
qed


subsection \<open>One step of the merge loop\<close>

lemma node_at_same_children:
  "children n' = children n \<Longrightarrow> r \<noteq> [] \<Longrightarrow> node_at n' r = node_at n r"
  by (cases r) simp_all

lemma pending_nonneg: "\<forall>(p, d) \<in> set agenda. sound d \<Longrightarrow> 0 \<le> pending agenda q"
  by (induction agenda) (auto simp: sound_def node_count_def)

lemma pending_zero: "\<forall>(p, d) \<in> set agenda. p \<noteq> q \<Longrightarrow> pending agenda q = 0"
  by (induction agenda) auto

lemma pending_children:
  "pending (map (\<lambda>(u, e). (p, e)) cs) q = (if p = q then child_sum (Node i cs) else 0)"
  by (induction cs) (auto simp: child_sum_def)

lemma sound_reparent:
  "sound d \<Longrightarrow> sound (Node ((info d)\<lparr> parent := ParentCopy \<rparr>) (children d))"
  unfolding sound_def by (simp add: node_count_def)

lemma node_ok_same:
  "node_at trie' q = node_at trie q \<Longrightarrow> pending agenda' q = pending agenda q
    \<Longrightarrow> node_ok agenda trie q \<Longrightarrow> node_ok agenda' trie' q"
  by (simp add: node_ok_def split: option.splits)

lemma node_okI:
  "node_at trie q = Some m \<Longrightarrow> sound m \<Longrightarrow> child_sum m + pending agenda q \<le> node_count m
    \<Longrightarrow> node_ok agenda trie q"
  by (simp add: node_ok_def)

definition merge_inv :: "(string list \<times> 'a node) list \<Rightarrow> 'a node \<Rightarrow> bool" where
  "merge_inv agenda trie =
     (is_root trie \<and> distinct (map fst (children trie))
      \<and> (\<forall>q. q \<noteq> [] \<longrightarrow> node_ok agenda trie q)
      \<and> (\<forall>(p, d) \<in> set agenda. node_at trie p \<noteq> None \<and> sound d \<and> below_sound d))"

lemma merge_step:
  assumes inv: "merge_inv ((p, d) # agenda) trie"
    and left: "node_at trie p = Some left"
  shows "\<exists>left' lfs'.
      merge_child left lfs token d = Inr (left', lfs', map_of (children left) token \<noteq> None)
      \<and> merge_inv ((if map_of (children left) token \<noteq> None
                     then map (\<lambda>(u, e). (p @ [token], e)) (children d) else []) @ agenda)
            (set_at p left' trie)"
proof -
  from inv have top: "is_root trie" and dist: "distinct (map fst (children trie))"
    and ok: "\<And>q. q \<noteq> [] \<Longrightarrow> node_ok ((p, d) # agenda) trie q"
    and items: "\<forall>(p', d') \<in> set agenda. node_at trie p' \<noteq> None \<and> sound d' \<and> below_sound d'"
    and d: "sound d" "below_sound d"
    by (auto simp: merge_inv_def)
  have sub: "node_at trie (p @ r) = node_at left r" for r
    using left by (simp add: node_at_append)
  have pn: "0 \<le> pending agenda q" for q
    by (rule pending_nonneg) (use items in auto)
  have at_p: "sound left \<and> child_sum left + node_count d + pending agenda p \<le> node_count left"
    if "p \<noteq> []"
    using ok[OF that] left by (simp add: node_ok_def algebra_simps)
  have below: "below_sound left"
    unfolding below_sound_def
  proof (intro conjI allI impI)
    show "distinct (map fst (children left))"
    proof (cases "p = []")
      case True
      then show ?thesis using left dist by simp
    next
      case False
      then show ?thesis using at_p by (simp add: sound_def)
    qed
  next
    fix r m assume "r \<noteq> []" "node_at left r = Some m"
    then show "sound m"
      using ok[of "p @ r"] sub[of r] by (simp add: node_ok_def)
  qed
  have nr: "\<not> is_root left \<longleftrightarrow> p \<noteq> []"
  proof (cases "p = []")
    case True
    then show ?thesis using left top by simp
  next
    case False
    then show ?thesis using at_p by (simp add: sound_def is_root_def)
  qed
  define X where "X = merged_child left token d"
  from merge_child_result[OF below _ d(1), of lfs token] at_p nr
  obtain left' lfs' where
    res: "merge_child left lfs token d = Inr (left', lfs', map_of (children left) token \<noteq> None)"
    and ch: "children left' = AList.update token X (children left)"
    and par: "parent (info left') = parent (info left)"
    and cnt: "count (info left') = count (info left)"
    and snd': "\<not> is_root left \<longrightarrow> child_sum left + node_count d \<le> node_count left \<longrightarrow> sound left'"
    unfolding X_def by blast
  have sound': "sound left'" if "p \<noteq> []"
  proof -
    from at_p[OF that] pn[of p] have "child_sum left + node_count d \<le> node_count left"
      by linarith
    moreover have "\<not> is_root left" using nr that by simp
    ultimately show ?thesis using snd' by simp
  qed
  have count_X: "node_count X =
      (case map_of (children left) token of
         None \<Rightarrow> node_count d | Some current \<Rightarrow> node_count current + node_count d)"
    by (simp add: X_def merged_child_def node_count_def split: option.splits)
  have csum': "child_sum left' = child_sum left + node_count d"
  proof -
    have "child_sum left' = child_sum (Node (info left) (AList.update token X (children left)))"
      by (simp add: child_sum_def ch)
    then show ?thesis
      by (cases "map_of (children left) token")
         (simp_all add: child_sum_update_absent child_sum_update_present count_X)
  qed
  have ncount': "node_count left' = node_count left" by (simp add: node_count_def cnt)
  define fresh where "fresh = (if map_of (children left) token \<noteq> None
       then map (\<lambda>(u, e). (p @ [token], e)) (children d) else [])"
  define trie' where "trie' = set_at p left' trie"
  have pend_fresh: "pending fresh q =
      (if map_of (children left) token \<noteq> None \<and> q = p @ [token] then child_sum d else 0)" for q
  proof (cases "map_of (children left) token")
    case None
    then show ?thesis by (simp add: fresh_def)
  next
    case (Some current)
    have "pending (map (\<lambda>(u, e). (p @ [token], e)) (children d)) q
        = (if p @ [token] = q then child_sum d else 0)"
      using pending_children[of "p @ [token]" "children d" q "info d"] by simp
    also have "\<dots> = (if q = p @ [token] then child_sum d else 0)"
      by (rule if_cong) auto
    finally show ?thesis by (simp add: fresh_def Some)
  qed
  have below': "node_at trie' (p @ r) = node_at left' r" for r
    unfolding trie'_def by (rule node_at_set_at_below[OF left])
  have step: "node_at left' (u # r) = (if u = token then node_at X r else node_at left (u # r))"
    for u r
    by (simp add: ch update_conv')
  have at_token: "node_at trie' (p @ [token]) = Some X"
    using below'[of "[token]"] step[of token "[]"] by simp
  have at_left: "node_at trie' p = Some left'"
    using below'[of "[]"] by simp
  have X_kids: "r \<noteq> [] \<Longrightarrow> node_at X r =
      (case map_of (children left) token of
         None \<Rightarrow> node_at d r | Some current \<Rightarrow> node_at current r)" for r
  proof (cases "map_of (children left) token")
    case None
    assume "r \<noteq> []"
    then show ?thesis
      using node_at_same_children[of X d r] by (simp add: X_def merged_child_def None)
  next
    case (Some current)
    assume "r \<noteq> []"
    then show ?thesis
      using node_at_same_children[of X current r] by (simp add: X_def merged_child_def Some)
  qed
  have "is_root trie'"
  proof (cases p)
    case Nil
    then show ?thesis using left top par by (simp add: trie'_def is_root_def)
  next
    case (Cons t ts)
    then show ?thesis using top by (simp add: trie'_def is_root_def split: option.splits)
  qed
  moreover have "distinct (map fst (children trie'))"
  proof (cases p)
    case Nil
    then show ?thesis using left dist by (simp add: trie'_def ch distinct_update)
  next
    case (Cons t ts)
    then show ?thesis using dist
      by (simp add: trie'_def distinct_update split: option.splits)
  qed
  moreover have "node_ok (fresh @ agenda) trie' q" if q: "q \<noteq> []" for q
  proof (cases "prefix p q")
    case False
    then have "q \<noteq> p" "q \<noteq> p @ [token]" by auto
    then have "pending (fresh @ agenda) q = pending ((p, d) # agenda) q"
      by (simp add: pend_fresh)
    from node_ok_other[OF left cnt False this ok[OF q]] show ?thesis
      by (simp add: trie'_def)
  next
    case True
    then obtain r where r: "q = p @ r" by (auto simp: prefix_def)
    show ?thesis
    proof (cases r)
      case Nil
      with q r have p: "p \<noteq> []" by simp
      have "pending (fresh @ agenda) p = pending agenda p" by (simp add: pend_fresh)
      then show ?thesis
        using sound'[OF p] at_p[OF p] csum' ncount'
        by (intro node_okI[of _ _ left']) (simp_all add: r Nil at_left)
    next
      case (Cons u r')
      show ?thesis
      proof (cases "u = token")
        case False
        then have pend: "pending (fresh @ agenda) q = pending ((p, d) # agenda) q"
          by (simp add: pend_fresh r Cons)
        have "node_at trie' q = node_at trie q"
          using False by (simp add: r Cons below' step sub del: node_at.simps)
        from node_ok_same[OF this pend ok[OF q]] show ?thesis .
      next
        case u: True
        show ?thesis
        proof (cases "map_of (children left) token")
          case None
          have invalid: "node_at trie q = None"
            by (simp add: r Cons u sub None)
          have "pending agenda q = 0"
            by (rule pending_zero) (use items invalid in auto)
          then have pend0: "pending (fresh @ agenda) q = 0"
            by (simp add: pend_fresh None)
          have X: "X = Node ((info d)\<lparr> parent := ParentCopy \<rparr>) (children d)"
            by (simp add: X_def merged_child_def None)
          have "sound m" if "node_at X r' = Some m" for m
          proof (cases "r' = []")
            case True
            with that show ?thesis using sound_reparent[OF d(1)] by (simp add: X)
          next
            case False
            with that d(2) show ?thesis
              by (simp add: X_kids None below_sound_def)
          qed
          moreover have "node_at trie' q = node_at X r'"
            by (simp add: r Cons u below' step del: node_at.simps)
          ultimately show ?thesis
            using pend0 by (auto simp: node_ok_def sound_def split: option.splits)
        next
          case (Some current)
          have cur_at: "node_at trie (p @ [token]) = Some current"
            by (simp add: sub Some)
          from ok[of "p @ [token]"] cur_at
          have cur: "sound current"
            "child_sum current + pending agenda (p @ [token]) \<le> node_count current"
            by (simp_all add: node_ok_def)
          then obtain kc where kc: "count (info current) = Some kc" "node_count current = kc"
            by (auto simp: sound_def node_count_def)
          have X: "X = Node ((info current)\<lparr> count := Some (kc + node_count d),
                 score := score (info current) + of_int (node_count d) \<rparr>) (children current)"
            by (simp add: X_def merged_child_def Some kc)
          show ?thesis
          proof (cases "r' = []")
            case True
            have "0 \<le> node_count d" using node_count_pos[OF d(1)] by simp
            from sound_increment[OF cur(1) kc(1) this] have "sound X" by (simp add: X)
            moreover have "child_sum X = child_sum current" "node_count X = kc + node_count d"
              by (simp_all add: X node_count_def)
            moreover have "pending (fresh @ agenda) (p @ [token])
                = child_sum d + pending agenda (p @ [token])"
              by (simp add: pend_fresh Some)
            moreover have "child_sum d \<le> node_count d" using d(1) by (simp add: sound_def)
            moreover have "node_at trie' q = Some X"
              using at_token by (simp add: r Cons u True)
            ultimately show ?thesis
              using cur(2) kc(2) by (intro node_okI[of _ _ X]) (simp_all add: r Cons u True)
          next
            case False
            then have pend: "pending (fresh @ agenda) q = pending ((p, d) # agenda) q"
              by (simp add: pend_fresh r Cons u)
            have "node_at left (token # r') = node_at current r'" by (simp add: Some)
            then have "node_at trie' q = node_at trie q"
              using False by (simp add: r Cons u below' step sub X_kids Some del: node_at.simps)
            from node_ok_same[OF this pend ok[OF q]] show ?thesis .
          qed
        qed
      qed
    qed
  qed
  moreover have "node_at trie' p' \<noteq> None \<and> sound d' \<and> below_sound d'"
    if "(p', d') \<in> set (fresh @ agenda)" for p' d'
  proof (cases "(p', d') \<in> set fresh")
    case True
    then obtain u where both: "map_of (children left) token \<noteq> None"
      and p': "p' = p @ [token]" and ud: "(u, d') \<in> set (children d)"
      by (auto simp: fresh_def split: if_splits)
    have "distinct (map fst (children d))" using d(1) by (simp add: sound_def)
    with ud have "map_of (children d) u = Some d'" by simp
    from below_sound_child[OF d(2) this] show ?thesis
      using at_token by (simp add: p' del: node_at.simps)
  next
    case False
    with that have mem: "(p', d') \<in> set agenda" by simp
    with items have valid: "node_at trie p' \<noteq> None" and dd: "sound d'" "below_sound d'"
      by auto
    have "node_at trie' p' \<noteq> None"
    proof (cases "prefix p p'")
      case np: False
      from stats_at_set_at_other[OF left cnt np] valid show ?thesis
        by (auto simp: stats_at_def trie'_def)
    next
      case True
      then obtain r where r: "p' = p @ r" by (auto simp: prefix_def)
      show ?thesis
      proof (cases r)
        case Nil
        then show ?thesis using at_left by (simp add: r)
      next
        case (Cons u r')
        show ?thesis
        proof (cases "u = token")
          case False
          then show ?thesis
            using valid by (simp add: r Cons below' step sub del: node_at.simps)
        next
          case u: True
          from valid obtain current where cur: "map_of (children left) token = Some current"
            and deeper: "node_at current r' \<noteq> None"
            by (auto simp: r Cons u sub split: option.splits)
          show ?thesis
          proof (cases "r' = []")
            case True
            then show ?thesis using at_token by (simp add: r Cons u del: node_at.simps)
          next
            case False
            then show ?thesis
              using deeper by (simp add: r Cons u below' step X_kids cur del: node_at.simps)
          qed
        qed
      qed
    qed
    then show ?thesis using dd by simp
  qed
  ultimately have "merge_inv (fresh @ agenda) trie'"
    unfolding merge_inv_def by blast
  then show ?thesis
    using res unfolding fresh_def trie'_def by blast
qed


subsection \<open>The merge loop and \<^verbatim>\<open>update\<close>\<close>

definition queue_items :: "(string list \<times> 'a node) list \<Rightarrow> (string list \<times> 'a node) list" where
  "queue_items queue =
     concat (map (\<lambda>(p, right). map (\<lambda>(t, d). (p, d)) (children right)) queue)"

lemma queue_items_simps [simp]:
  "queue_items [] = []"
  "queue_items ((p, right) # queue) = map (\<lambda>(t, d). (p, d)) (children right) @ queue_items queue"
  "queue_items (xs @ ys) = queue_items xs @ queue_items ys"
  by (simp_all add: queue_items_def)

lemma merge_inv_cong:
  "set agenda' = set agenda \<Longrightarrow> (\<And>q. pending agenda' q = pending agenda q)
    \<Longrightarrow> merge_inv agenda trie \<Longrightarrow> merge_inv agenda' trie"
  by (auto simp: merge_inv_def node_ok_def split: option.splits)

lemma merge_children_inv:
  "merge_inv (map (\<lambda>(t, d). (p, d)) rest @ queue_items queue) trie
    \<Longrightarrow> \<exists>trie' lfs' queue'. merge_children trie lfs queue p rest = Inr (trie', lfs', queue')
          \<and> merge_inv (queue_items queue') trie'"
proof (induction rest arbitrary: trie lfs queue)
  case Nil
  then show ?case by simp
next
  case (Cons item rest)
  obtain token d where item: "item = (token, d)" by (cases item)
  define agenda where "agenda = map (\<lambda>(t, d). (p, d)) rest @ queue_items queue"
  from Cons.prems have inv: "merge_inv ((p, d) # agenda) trie"
    by (simp add: item agenda_def)
  then obtain left where left: "node_at trie p = Some left"
    by (auto simp: merge_inv_def)
  define both where "both = (map_of (children left) token \<noteq> None)"
  define fresh where "fresh = (if both then map (\<lambda>(u, e). (p @ [token], e)) (children d) else [])"
  from merge_step[OF inv left, of lfs token] obtain left' lfs' where
    res: "merge_child left lfs token d = Inr (left', lfs', both)" and
    inv': "merge_inv (fresh @ agenda) (set_at p left' trie)"
    unfolding both_def fresh_def by blast
  define queue1 where "queue1 = (if both then (p @ [token], d) # queue else queue)"
  have items1: "queue_items queue1 = fresh @ queue_items queue"
    by (simp add: queue1_def fresh_def)
  have "merge_inv (map (\<lambda>(t, d). (p, d)) rest @ queue_items queue1) (set_at p left' trie)"
    by (rule merge_inv_cong[OF _ _ inv']) (auto simp: items1 agenda_def)
  from Cons.IH[OF this, of lfs'] obtain trie' lfs'' queue' where
    "merge_children (set_at p left' trie) lfs' queue1 p rest = Inr (trie', lfs'', queue')"
    "merge_inv (queue_items queue') trie'"
    by blast
  then show ?case
    using left res by (simp add: item queue1_def)
qed

lemma update_loop_inv:
  "merge_inv (queue_items queue) trie
    \<Longrightarrow> \<exists>trie' lfs'. update_loop trie lfs queue = Inr (trie', lfs') \<and> merge_inv [] trie'"
proof (induction trie lfs queue rule: update_loop.induct)
  case (1 trie lfs queue)
  show ?case
  proof (cases "queue = []")
    case True
    then show ?thesis using "1.prems" by (simp add: update_loop.simps)
  next
    case False
    obtain p right where last: "last queue = (p, right)" by (cases "last queue")
    have split: "queue = butlast queue @ [(p, right)]"
      using False last by (metis append_butlast_last_id)
    have "queue_items queue = queue_items (butlast queue) @ map (\<lambda>(t, d). (p, d)) (children right)"
      by (subst split) simp
    with "1.prems" have
      "merge_inv (map (\<lambda>(t, d). (p, d)) (children right) @ queue_items (butlast queue)) trie"
      by (intro merge_inv_cong[OF _ _ "1.prems"]) auto
    from merge_children_inv[OF this, of lfs] obtain trie1 lfs1 queue1 where
      m: "merge_children trie lfs (butlast queue) p (children right) = Inr (trie1, lfs1, queue1)"
      and inv1: "merge_inv (queue_items queue1) trie1"
      by blast
    from "1.IH"[OF False last[symmetric] m refl refl inv1]
    obtain trie' lfs' where "update_loop trie1 lfs1 queue1 = Inr (trie', lfs')" "merge_inv [] trie'"
      by blast
    moreover have "update_loop trie lfs queue = update_loop trie1 lfs1 queue1"
      using False last m by (subst update_loop.simps) simp
    ultimately show ?thesis by simp
  qed
qed

lemma merge_inv_empty: "merge_inv [] trie = trie_inv trie"
  by (auto simp: merge_inv_def trie_inv_def below_sound_def node_ok_def sound_def
      split: option.splits)

lemma update_inv:
  assumes "trie_inv (internal_trie self)" and "trie_inv (internal_trie adeft_miner)"
  shows "\<exists>m. update ext self adeft_miner = Inr m \<and> trie_inv (internal_trie m)"
proof -
  define other where "other = internal_trie adeft_miner"
  have kids: "sound d \<and> below_sound d" if "(t, d) \<in> set (children other)" for t d
  proof -
    from assms(2) have b: "below_sound other" by (simp add: trie_inv_def other_def)
    then have "map_of (children other) t = Some d"
      using that by (simp add: below_sound_def)
    from below_sound_child[OF b this] show ?thesis .
  qed
  have "pending (queue_items [([], other)]) q = 0" if "q \<noteq> []" for q
    by (rule pending_zero) (use that in auto)
  then have "merge_inv (queue_items [([], other)]) (internal_trie self)"
    using assms(1) kids unfolding merge_inv_empty[symmetric]
    by (auto simp: merge_inv_def node_ok_def split: option.splits)
  from update_loop_inv[OF this] obtain trie' lfs' where
    "update_loop (internal_trie self)
       (fold (\<lambda>(key, v). AList.update key v)
          (filter (\<lambda>(key, v). map_of (longforms self) key = None) (longforms adeft_miner))
          (longforms self))
       [([], other)] = Inr (trie', lfs')" "merge_inv [] trie'"
    by blast
  then show ?thesis
    by (simp add: update_def Let_def other_def merge_inv_empty)
qed


subsection \<open>The passes of \<^verbatim>\<open>get_longforms\<close> keep the statistics\<close>

lemma stats_at_set_at_same:
  assumes "node_at trie p = Some n" and "stats n' = stats n" and "children n' = children n"
  shows "stats_at (set_at p n' trie) q = stats_at trie q"
proof (cases "prefix p q")
  case False
  have "count (info n') = count (info n)" using assms(2) by (simp add: stats_def)
  from stats_at_set_at_other[OF assms(1) this False] show ?thesis .
next
  case True
  then obtain r where r: "q = p @ r" by (auto simp: prefix_def)
  show ?thesis
  proof (cases "r = []")
    case True
    then show ?thesis
      using assms by (simp add: r stats_at_def node_at_set_at_same[OF assms(1)])
  next
    case False
    have "node_at (set_at p n' trie) (p @ r) = node_at n' r"
      by (rule node_at_set_at_below[OF assms(1)])
    moreover have "node_at trie (p @ r) = node_at n r"
      using assms(1) by (simp add: node_at_append)
    ultimately show ?thesis
      using node_at_same_children[OF assms(3) False] by (simp add: r stats_at_def)
  qed
qed

definition keeps_stats :: "('a node_info \<Rightarrow> string \<Rightarrow> 'a node_info \<Rightarrow> 'a node_info) \<Rightarrow> bool" where
  "keeps_stats upd =
     (\<forall>i t j. parent (upd i t j) = parent j \<and> count (upd i t j) = count j
        \<and> sum_ft (upd i t j) = sum_ft j \<and> sum_ft2 (upd i t j) = sum_ft2 j
        \<and> score (upd i t j) = score j)"

lemma stats_at_visit:
  assumes "node_at trie p = Some current" and "keeps_stats upd"
  shows "stats_at (set_at p (visit_children upd current) trie) q = stats_at trie q"
proof (cases "prefix p q")
  case False
  have "count (info (visit_children upd current)) = count (info current)"
    by (simp add: visit_children_def)
  from stats_at_set_at_other[OF assms(1) this False] show ?thesis .
next
  case True
  then obtain r where r: "q = p @ r" by (auto simp: prefix_def)
  have at: "node_at trie (p @ r') = node_at current r'" for r'
    using assms(1) by (simp add: node_at_append)
  have same: "stats (Node (upd i t (info c)) (children c)) = stats c" for i t c
    using assms(2) by (simp add: stats_def keeps_stats_def)
  show ?thesis
  proof (cases r)
    case Nil
    have "map (\<lambda>(t, c). (t, count (info c)))
            (map (\<lambda>(token, child). (token, Node (upd i token (info child)) (children child))) cs)
          = map (\<lambda>(t, c). (t, count (info c))) cs" for i and cs :: "(string \<times> 'a node) list"
      using assms(2) by (induction cs) (auto simp: keeps_stats_def)
    then have "stats (visit_children upd current) = stats current"
      by (simp add: stats_def visit_children_def)
    then show ?thesis
      using assms(1) by (simp add: r Nil stats_at_def node_at_set_at_same[OF assms(1)])
  next
    case r: (Cons t r')
    show ?thesis
    proof (cases r')
      case Nil
      have one: "node_at current [t] = map_of (children current) t"
        by (simp split: option.splits)
      show ?thesis
        by (simp add: \<open>q = p @ r\<close> r Nil stats_at_def node_at_set_at_below[OF assms(1)] at
            node_at_visit_children one option.map_comp o_def same del: node_at.simps)
    next
      case (Cons u r'')
      then show ?thesis
        by (simp add: \<open>q = p @ r\<close> r stats_at_def node_at_set_at_below[OF assms(1)] at
            node_at_visit_children del: node_at.simps)
    qed
  qed
qed

lemma bfs_children_stats:
  "bfs_children upd trie queue cur = Inr (trie', cur') \<Longrightarrow> keeps_stats upd
    \<Longrightarrow> stats_at trie' q = stats_at trie q"
proof (induction upd trie queue cur rule: bfs_children.induct)
  case (1 upd trie queue cur)
  show ?case
  proof (cases "queue = []")
    case True
    then show ?thesis using "1.prems" by (simp add: bfs_children.simps)
  next
    case False
    from bfs_children_Inr[OF "1.prems"(1) False] obtain current where
      current: "node_at trie (last queue) = Some current" and
      rec: "bfs_children upd (set_at (last queue) (visit_children upd current) trie)
              (rev (map (\<lambda>(token, child). last queue @ [token]) (children current)) @ butlast queue)
              (last queue) = Inr (trie', cur')"
      by blast
    from "1.IH"[OF False current rec "1.prems"(2)]
    show ?thesis by (simp add: stats_at_visit[OF current "1.prems"(2)])
  qed
qed

lemma descendent_loop_stats:
  "descendent_loop trie cur = Inr trie' \<Longrightarrow> stats_at trie' q = stats_at trie q"
proof (induction trie cur rule: descendent_loop.induct)
  case (1 trie cur)
  from "1.prems" obtain current where current: "node_at trie cur = Some current"
    by (subst (asm) descendent_loop.simps) (auto split: option.splits)
  show ?case
  proof (cases "parent (info current) = ParentOwner")
    case False
    then have "trie' = trie"
      using "1.prems" current
      by (subst (asm) descendent_loop.simps) (auto split: parent_ref.splits)
    then show ?thesis by simp
  next
    case True
    from "1.prems" current True have ne: "cur \<noteq> []"
      by (subst (asm) descendent_loop.simps) (auto split: if_splits)
    from "1.prems" current True ne obtain par where par: "node_at trie (butlast cur) = Some par"
      by (subst (asm) descendent_loop.simps) (auto split: option.splits)
    define par' where "par' = Node ((info par)\<lparr> best_descendent_score :=
          (if score (info par) > best_descendent_score (info current)
           then score (info par) else best_descendent_score (info current)) \<rparr>) (children par)"
    have st: "stats_at (set_at (butlast cur) par' trie) q = stats_at trie q"
      by (rule stats_at_set_at_same[OF par]) (simp_all add: par'_def stats_def)
    show ?thesis
    proof (cases "best_descendent_score (info current) > score (info par)
                  \<or> best_descendent_score (info par) = 0")
      case no: False
      then have "trie' = trie"
        using "1.prems" current par True ne
        by (subst (asm) descendent_loop.simps) auto
      then show ?thesis by simp
    next
      case yes: True
      have "descendent_loop (set_at (butlast cur) par' trie) (butlast cur) = Inr trie'"
        using "1.prems" current par True ne yes
        by (subst (asm) descendent_loop.simps) (simp add: par'_def)
      from "1.IH"[OF current True ne par yes, folded par'_def, OF this] st
      show ?thesis by simp
    qed
  qed
qed

lemma trie_inv_stats:
  assumes "\<And>q. stats_at trie' q = stats_at trie q" and "trie_inv trie"
  shows "trie_inv trie'"
proof -
  from assms(1)[of "[]"] have top: "stats trie' = stats trie"
    by (simp add: stats_at_def)
  have "sound m'" if "q \<noteq> []" "node_at trie' q = Some m'" for q m'
  proof -
    from assms(1)[of q] that(2) have "map_option stats (node_at trie q) = Some (stats m')"
      by (simp add: stats_at_def)
    then obtain m where "node_at trie q = Some m" "stats m' = stats m"
      by (cases "node_at trie q") auto
    with assms(2) that(1) show ?thesis
      using stats_eq_sound[of m' m] by (simp add: trie_inv_def below_sound_def)
  qed
  moreover have "is_root trie'"
    using top assms(2) by (simp add: trie_inv_def is_root_def stats_def)
  moreover have "distinct (map fst (children trie'))"
    using stats_eq_sums(4)[OF top] assms(2) by (simp add: trie_inv_def below_sound_def)
  ultimately show ?thesis
    by (simp add: trie_inv_def below_sound_def)
qed

lemma propagate_scores_inv:
  assumes "propagate_scores trie = Inr trie'" and "trie_inv trie"
  shows "trie_inv trie'"
proof -
  have keep: "keeps_stats ancestor_update"
    by (simp add: keeps_stats_def ancestor_update_def)
  from assms(1) obtain trie1 cur current where
    bfs: "bfs_children ancestor_update trie [[]] [] = Inr (trie1, cur)" and
    current: "node_at trie1 cur = Some current"
    by (auto simp: propagate_scores_def split: sum.splits option.splits)
  have st1: "stats_at trie1 q = stats_at trie q" for q
    by (rule bfs_children_stats[OF bfs keep])
  show ?thesis
  proof (cases "children current = []")
    case False
    then have "trie' = trie1" using assms(1) by (simp add: propagate_scores_def bfs current)
    then show ?thesis using trie_inv_stats[OF st1 assms(2)] by simp
  next
    case True
    define trie2 where "trie2 = set_at cur
        (Node ((info current)\<lparr> best_descendent_score := score (info current) \<rparr>)
           (children current)) trie1"
    have st2: "stats_at trie2 q = stats_at trie1 q" for q
      unfolding trie2_def by (rule stats_at_set_at_same[OF current]) (simp_all add: stats_def)
    have "descendent_loop trie2 cur = Inr trie'"
      using assms(1) True by (simp add: propagate_scores_def bfs current trie2_def)
    from descendent_loop_stats[OF this] st2 st1
    have "stats_at trie' q = stats_at trie q" for q by simp
    from trie_inv_stats[OF this assms(2)] show ?thesis .
  qed
qed

lemma compute_alignment_scores_inv:
  assumes "compute_alignment_scores ext sf trie = Inr trie'" and "trie_inv trie"
  shows "trie_inv trie'"
proof -
  have keep: "keeps_stats (alignment_update ext sf)"
    by (simp add: keeps_stats_def alignment_update_def split: prod.splits)
  from assms(1) obtain cur where
    "bfs_children (alignment_update ext sf) trie [[]] [] = Inr (trie', cur)"
    by (auto simp: compute_alignment_scores_def split: sum.splits)
  from bfs_children_stats[OF this keep] show ?thesis
    by (intro trie_inv_stats[OF _ assms(2)])
qed

lemma get_longforms_inv:
  assumes "get_longforms ext self cutoff smoothing_param max_len use_abs abs_decay_param
             = Inr (found, self')"
    and "trie_inv (internal_trie self)"
  shows "trie_inv (internal_trie self')"
  using assms unfolding get_longforms_def Let_def
  by (auto simp del: get_longform_helper.simps split: sum.splits if_splits
      dest: propagate_scores_inv compute_alignment_scores_inv)
    (blast intro: propagate_scores_inv compute_alignment_scores_inv)+

lemma add_inv:
  assumes "trie_inv (internal_trie self)"
  shows "\<exists>m. add ext self tokens = Inr m \<and> trie_inv (internal_trie m)"
proof -
  obtain stems st where stems: "stem_tokens ext (stemmer self) tokens = (stems, st)"
    by (cases "stem_tokens ext (stemmer self) tokens")
  from assms have top: "is_root (internal_trie self)" and below: "below_sound (internal_trie self)"
    by (simp_all add: trie_inv_def)
  from add_loop_sound[OF below, of "rev stems" ext "longforms self"] top
  obtain trie lfs where "add_loop ext (internal_trie self) (longforms self) (rev stems) = Inr (trie, lfs)"
    "below_sound trie" "parent (info trie) = parent (info (internal_trie self))"
    by auto
  then show ?thesis
    using top by (simp add: add_def stems trie_inv_def is_root_def)
qed

lemma add_fragments_inv:
  "trie_inv (internal_trie self)
    \<Longrightarrow> \<exists>m. add_fragments ext self fragments = Inr m \<and> trie_inv (internal_trie m)"
proof (induction fragments arbitrary: self)
  case Nil
  then show ?case by simp
next
  case (Cons fragment fragments)
  show ?case
  proof (cases "fragment = []")
    case True
    then show ?thesis using Cons.IH[OF Cons.prems] by simp
  next
    case False
    from add_inv[OF Cons.prems, of ext "get_candidate ext fragment"] obtain m where
      m: "add ext self (get_candidate ext fragment) = Inr m" "trie_inv (internal_trie m)"
      by blast
    from Cons.IH[OF m(2)] show ?thesis using False m(1) by simp
  qed
qed

lemma add_texts_inv:
  "trie_inv (internal_trie self)
    \<Longrightarrow> \<exists>m. add_texts ext self texts = Inr m \<and> trie_inv (internal_trie m)"
proof (induction texts arbitrary: self)
  case Nil
  then show ?case by simp
next
  case (Cons t texts)
  from add_fragments_inv[OF Cons.prems,
      of ext "get_candidate_fragments ext t (shortform self) (window self)"]
  obtain m where
    m: "add_fragments ext self (get_candidate_fragments ext t (shortform self) (window self)) = Inr m"
      "trie_inv (internal_trie m)"
    by blast
  from Cons.IH[OF m(2)] show ?case using m(1) by simp
qed

lemma process_texts_inv:
  assumes "trie_inv (internal_trie self)"
  shows "\<exists>m. process_texts ext self texts = Inr m \<and> trie_inv (internal_trie m)"
  using add_texts_inv[OF assms, of ext texts] by (auto simp: process_texts_def)

inductive reachable :: "('a, 's) collaborators \<Rightarrow> ('a, 's) miner \<Rightarrow> bool"
  for ext :: "('a, 's) collaborators" where
  constructed: "reachable ext (AdeftMiner_init ext sf w)"
| ingested: "reachable ext self \<Longrightarrow> process_texts ext self texts = Inr self'
             \<Longrightarrow> reachable ext self'"
| added: "reachable ext self \<Longrightarrow> add ext self tokens = Inr self' \<Longrightarrow> reachable ext self'"
| merged: "reachable ext self \<Longrightarrow> reachable ext adeft_miner
           \<Longrightarrow> update ext self adeft_miner = Inr self' \<Longrightarrow> reachable ext self'"
| queried: "reachable ext self
            \<Longrightarrow> get_longforms ext self cutoff smoothing_param max_len use_abs abs_decay_param
                  = Inr (found, self')
            \<Longrightarrow> reachable ext self'"

lemma reachable_inv: "reachable ext self \<Longrightarrow> trie_inv (internal_trie self)"
proof (induction rule: reachable.induct)
  case (constructed sf w)
  then show ?case
    by (simp add: AdeftMiner_init_def TrieNode_init_def trie_inv_def is_root_def below_sound_leaf)
next
  case (ingested self texts self')
  then show ?case using process_texts_inv[of self ext texts] by auto
next
  case (added self tokens self')
  then show ?case using add_inv[of self ext tokens] by auto
next
  case (merged self adeft_miner self')
  then show ?case using update_inv[of self adeft_miner ext] by auto
next
  case (queried self cutoff smoothing_param max_len use_abs abs_decay_param found self')
  then show ?case using get_longforms_inv by blast
qed












section \<open>What a merge does, whatever the shortforms\<close>

text \<open>
  \<^verbatim>\<open>update\<close> only ever adds nodes: every path of the receiving trie and every path of
  the trie merged in addresses a node of the result.
\<close>

lemma merge_child_shape:
  assumes "merge_child left lfs token child = Inr (left1, lfs1, both)"
  shows "both = (map_of (children left) token \<noteq> None)"
    and "\<exists>X. children left1 = AList.update token X (children left)
           \<and> children X = (case map_of (children left) token of
                              None \<Rightarrow> children child | Some current \<Rightarrow> children current)"
  using assms
  by (auto simp: merge_child_def update_likelihood_def increment_count_def Let_def
      split: option.splits sum.splits if_splits)

lemma merge_child_paths:
  assumes "merge_child left lfs token child = Inr (left1, lfs1, both)"
  shows "node_at left r \<noteq> None \<Longrightarrow> node_at left1 r \<noteq> None"
    and "node_at left1 [token] \<noteq> None"
    and "\<not> both \<Longrightarrow> node_at child r \<noteq> None \<Longrightarrow> node_at left1 (token # r) \<noteq> None"
proof -
  from merge_child_shape[OF assms] obtain X where
    both: "both = (map_of (children left) token \<noteq> None)" and
    kids: "children left1 = AList.update token X (children left)" and
    X: "children X = (case map_of (children left) token of
                        None \<Rightarrow> children child | Some current \<Rightarrow> children current)"
    by blast
  have at: "map_of (children left1) t = (if t = token then Some X else map_of (children left) t)"
    for t
    by (simp add: kids update_conv')
  show "node_at left1 [token] \<noteq> None"
    by (simp add: at)
  show "node_at left1 r \<noteq> None" if "node_at left r \<noteq> None"
  proof (cases r)
    case Nil
    then show ?thesis by simp
  next
    case (Cons t r')
    show ?thesis
    proof (cases "t = token")
      case False
      then show ?thesis using that by (simp add: Cons at)
    next
      case True
      from that obtain current where current: "map_of (children left) token = Some current"
        and below: "node_at current r' \<noteq> None"
        by (auto simp: Cons True split: option.splits)
      have "children X = children current" using X current by simp
      then have "node_at X r' \<noteq> None"
        using below by (cases r') simp_all
      then show ?thesis by (simp add: Cons True at)
    qed
  qed
  show "node_at left1 (token # r) \<noteq> None" if "\<not> both" "node_at child r \<noteq> None"
  proof -
    from that(1) both have "children X = children child" using X by simp
    then have "node_at X r \<noteq> None"
      using that(2) by (cases r) simp_all
    then show ?thesis by (simp add: at)
  qed
qed

lemma set_at_paths:
  assumes left: "node_at trie p = Some left"
    and mono: "\<And>r. node_at left r \<noteq> None \<Longrightarrow> node_at left1 r \<noteq> None"
    and q: "node_at trie q \<noteq> None"
  shows "node_at (set_at p left1 trie) q \<noteq> None"
proof (cases "prefix p q")
  case True
  then obtain r where r: "q = p @ r" by (auto simp: prefix_def)
  have "node_at trie (p @ r) = node_at left r"
    using left by (simp add: node_at_append)
  with q have "node_at left1 r \<noteq> None" by (simp add: r mono)
  then show ?thesis
    by (simp add: r node_at_set_at_below[OF left])
next
  case False
  from info_at_set_at_other[OF left False, of left1]
  have "map_option info (node_at (set_at p left1 trie) q) = map_option info (node_at trie q)"
    by (simp add: info_at_def)
  with q show ?thesis
    by (cases "node_at (set_at p left1 trie) q") auto
qed

lemma merge_children_paths:
  "merge_children trie lfs queue p rest = Inr (trie', lfs', queue') \<Longrightarrow>
     (\<forall>q. node_at trie q \<noteq> None \<longrightarrow> node_at trie' q \<noteq> None)
     \<and> set queue \<subseteq> set queue'
     \<and> (\<forall>(token, child) \<in> set rest.
           node_at trie' (p @ [token]) \<noteq> None
           \<and> ((p @ [token], child) \<in> set queue'
                \<or> (\<forall>r. node_at child r \<noteq> None \<longrightarrow> node_at trie' (p @ token # r) \<noteq> None)))"
proof (induction rest arbitrary: trie lfs queue)
  case Nil
  then show ?case by simp
next
  case (Cons item rest)
  obtain token child where item: "item = (token, child)" by (cases item)
  from Cons.prems obtain left left1 lfs1 both where
    left: "node_at trie p = Some left" and
    step: "merge_child left lfs token child = Inr (left1, lfs1, both)" and
    rec: "merge_children (set_at p left1 trie) lfs1
            (if both then (p @ [token], child) # queue else queue) p rest = Inr (trie', lfs', queue')"
    by (auto simp: item split: option.splits sum.splits)
  define trie1 where "trie1 = set_at p left1 trie"
  define queue1 where "queue1 = (if both then (p @ [token], child) # queue else queue)"
  from Cons.IH[OF rec] have
    mono1: "\<And>q. node_at trie1 q \<noteq> None \<Longrightarrow> node_at trie' q \<noteq> None" and
    sub1: "set queue1 \<subseteq> set queue'" and
    rest: "\<forall>(token, child) \<in> set rest.
           node_at trie' (p @ [token]) \<noteq> None
           \<and> ((p @ [token], child) \<in> set queue'
                \<or> (\<forall>r. node_at child r \<noteq> None \<longrightarrow> node_at trie' (p @ token # r) \<noteq> None))"
    unfolding trie1_def queue1_def by blast+
  have mono0: "node_at trie1 q \<noteq> None" if "node_at trie q \<noteq> None" for q
    unfolding trie1_def by (rule set_at_paths[OF left merge_child_paths(1)[OF step] that])
  have under: "node_at trie1 (p @ r) = node_at left1 r" for r
    unfolding trie1_def by (rule node_at_set_at_below[OF left])
  have "node_at trie1 (p @ [token]) \<noteq> None"
    unfolding under by (rule merge_child_paths(2)[OF step])
  then have here: "node_at trie' (p @ [token]) \<noteq> None" by (rule mono1)
  have this_one: "(p @ [token], child) \<in> set queue'
      \<or> (\<forall>r. node_at child r \<noteq> None \<longrightarrow> node_at trie' (p @ token # r) \<noteq> None)"
  proof (cases both)
    case True
    then show ?thesis using sub1 by (auto simp: queue1_def)
  next
    case False
    have "node_at trie' (p @ token # r) \<noteq> None" if "node_at child r \<noteq> None" for r
      by (rule mono1) (simp only: under merge_child_paths(3)[OF step False that] not_False_eq_True)
    then show ?thesis by blast
  qed
  have "set queue \<subseteq> set queue'" using sub1 by (auto simp: queue1_def split: if_splits)
  with mono0 mono1 here this_one rest show ?case
    by (auto simp: item)
qed

lemma update_loop_paths:
  "update_loop trie lfs queue = Inr (trie', lfs') \<Longrightarrow>
     (\<forall>q. node_at trie q \<noteq> None \<longrightarrow> node_at trie' q \<noteq> None)
     \<and> (\<forall>(p, right) \<in> set queue. node_at trie p \<noteq> None \<longrightarrow>
           (\<forall>r. node_at right r \<noteq> None \<longrightarrow> node_at trie' (p @ r) \<noteq> None))"
proof (induction trie lfs queue rule: update_loop.induct)
  case (1 trie lfs queue)
  show ?case
  proof (cases "queue = []")
    case True
    then show ?thesis using "1.prems" by (simp add: update_loop.simps)
  next
    case False
    obtain p right where last: "last queue = (p, right)" by (cases "last queue")
    from "1.prems" False last obtain trie1 lfs1 queue1 where
      step: "merge_children trie lfs (butlast queue) p (children right) = Inr (trie1, lfs1, queue1)"
      and rec: "update_loop trie1 lfs1 queue1 = Inr (trie', lfs')"
      by (subst (asm) update_loop.simps) (auto split: sum.splits)
    from merge_children_paths[OF step] have
      mono0: "\<And>q. node_at trie q \<noteq> None \<Longrightarrow> node_at trie1 q \<noteq> None" and
      sub: "set (butlast queue) \<subseteq> set queue1" and
      kids: "\<And>token child. (token, child) \<in> set (children right) \<Longrightarrow>
           node_at trie1 (p @ [token]) \<noteq> None
           \<and> ((p @ [token], child) \<in> set queue1
                \<or> (\<forall>r. node_at child r \<noteq> None \<longrightarrow> node_at trie1 (p @ token # r) \<noteq> None))"
      by blast+
    from "1.IH"[OF False last[symmetric] step refl refl rec] have
      mono1: "\<And>q. node_at trie1 q \<noteq> None \<Longrightarrow> node_at trie' q \<noteq> None" and
      queued: "\<And>p' d r. (p', d) \<in> set queue1 \<Longrightarrow> node_at trie1 p' \<noteq> None
                 \<Longrightarrow> node_at d r \<noteq> None \<Longrightarrow> node_at trie' (p' @ r) \<noteq> None"
      by blast+
    have mono: "node_at trie' q \<noteq> None" if "node_at trie q \<noteq> None" for q
      by (rule mono1[OF mono0[OF that]])
    have members: "set queue = insert (p, right) (set (butlast queue))"
    proof -
      have "queue = butlast queue @ [(p, right)]"
        using False last by (metis append_butlast_last_id)
      then have "set queue = set (butlast queue @ [(p, right)])" by simp
      then show ?thesis by simp
    qed
    have "node_at trie' (p' @ r) \<noteq> None"
      if item: "(p', d) \<in> set queue" and valid: "node_at trie p' \<noteq> None"
        and r: "node_at d r \<noteq> None" for p' d r
    proof (cases "(p', d) \<in> set (butlast queue)")
      case True
      with sub have "(p', d) \<in> set queue1" by blast
      from queued[OF this mono0[OF valid] r] show ?thesis .
    next
      case False
      with item members have eq: "p' = p" "d = right" by auto
      show ?thesis
      proof (cases r)
        case Nil
        then show ?thesis using mono[OF valid] by simp
      next
        case (Cons token r')
        from r obtain child where child: "map_of (children right) token = Some child"
          and below: "node_at child r' \<noteq> None"
          by (auto simp: eq Cons split: option.splits)
        from map_of_SomeD[OF child] have "(token, child) \<in> set (children right)" .
        from kids[OF this] have there: "node_at trie1 (p @ [token]) \<noteq> None"
          and cases: "(p @ [token], child) \<in> set queue1
                \<or> (\<forall>r. node_at child r \<noteq> None \<longrightarrow> node_at trie1 (p @ token # r) \<noteq> None)"
          by blast+
        from cases show ?thesis
        proof
          assume "(p @ [token], child) \<in> set queue1"
          from queued[OF this there below] show ?thesis by (simp add: eq Cons)
        next
          assume "\<forall>r. node_at child r \<noteq> None \<longrightarrow> node_at trie1 (p @ token # r) \<noteq> None"
          with below have "node_at trie1 (p @ token # r') \<noteq> None" by blast
          from mono1[OF this] show ?thesis by (simp add: eq Cons)
        qed
      qed
    qed
    with mono show ?thesis by blast
  qed
qed

lemma update_paths:
  assumes "update ext self adeft_miner = Inr m"
  shows "shortform m = shortform self"
    and "node_at (internal_trie self) q \<noteq> None \<Longrightarrow> node_at (internal_trie m) q \<noteq> None"
    and "node_at (internal_trie adeft_miner) q \<noteq> None \<Longrightarrow> node_at (internal_trie m) q \<noteq> None"
proof -
  from assms obtain lfs trie lfs1 where
    loop: "update_loop (internal_trie self) lfs [([], internal_trie adeft_miner)] = Inr (trie, lfs1)"
    and m: "internal_trie m = trie" "shortform m = shortform self"
    by (auto simp: update_def Let_def split: sum.splits)
  show "shortform m = shortform self" by (rule m(2))
  from update_loop_paths[OF loop] have
    mono: "\<And>q. node_at (internal_trie self) q \<noteq> None \<Longrightarrow> node_at trie q \<noteq> None" and
    other: "\<And>r. node_at (internal_trie adeft_miner) r \<noteq> None \<Longrightarrow> node_at trie ([] @ r) \<noteq> None"
    by auto
  show "node_at (internal_trie self) q \<noteq> None \<Longrightarrow> node_at (internal_trie m) q \<noteq> None"
    using mono by (simp add: m(1))
  show "node_at (internal_trie adeft_miner) q \<noteq> None \<Longrightarrow> node_at (internal_trie m) q \<noteq> None"
    using other[of q] by (simp add: m(1))
qed

lemma update_all_merges:
  assumes "reachable ext out" and "\<forall>miner \<in> set miners. reachable ext miner"
  shows "\<exists>m. update_all ext out miners = Inr m \<and> reachable ext m
      \<and> shortform m = shortform out
      \<and> (\<forall>miner \<in> set (out # miners). \<forall>q. node_at (internal_trie miner) q \<noteq> None
            \<longrightarrow> node_at (internal_trie m) q \<noteq> None)"
  using assms
proof (induction miners arbitrary: out)
  case Nil
  then show ?case by simp
next
  case (Cons miner miners)
  then have r: "reachable ext out" "reachable ext miner" by simp_all
  from update_inv[OF reachable_inv[OF r(1)] reachable_inv[OF r(2)], of ext] obtain out1 where
    out1: "update ext out miner = Inr out1"
    by blast
  have r1: "reachable ext out1" by (rule reachable.merged[OF r out1])
  have others: "\<forall>x \<in> set miners. reachable ext x" using Cons.prems(2) by simp
  from Cons.IH[OF r1 others] obtain m where
    m: "update_all ext out1 miners = Inr m" "reachable ext m" "shortform m = shortform out1"
    and all: "\<forall>x \<in> set (out1 # miners). \<forall>q. node_at (internal_trie x) q \<noteq> None
            \<longrightarrow> node_at (internal_trie m) q \<noteq> None"
    by blast
  have paths: "node_at (internal_trie m) q \<noteq> None"
    if "x \<in> set (out1 # miners)" "node_at (internal_trie x) q \<noteq> None" for x q
    using all that by blast
  have "node_at (internal_trie m) q \<noteq> None"
    if "x \<in> set (out # miner # miners)" "node_at (internal_trie x) q \<noteq> None" for x q
  proof -
    from that(1) consider "x = out" | "x = miner" | "x \<in> set miners" by auto
    then show ?thesis
    proof cases
      case 1
      from update_paths(2)[OF out1, of q] that(2) have "node_at (internal_trie out1) q \<noteq> None"
        by (simp add: 1)
      then show ?thesis by (intro paths[of out1]) simp_all
    next
      case 2
      from update_paths(3)[OF out1, of q] that(2) have "node_at (internal_trie out1) q \<noteq> None"
        by (simp add: 2)
      then show ?thesis by (intro paths[of out1]) simp_all
    next
      case 3
      then show ?thesis using that(2) by (intro paths[of x]) simp_all
    qed
  qed
  then show ?case
    using m out1 update_paths(1)[OF out1] by (simp del: set_simps)
qed


text \<open>
  Claim C8 as amended: \<^verbatim>\<open>update\<close> and \<^verbatim>\<open>compose\<close> make no shortform check and raise no
  error. For any two miners built by construction, ingestion and merging, whatever
  their shortforms, \<^verbatim>\<open>update\<close> returns; the receiving miner keeps its own shortform, and
  every node of the receiving trie and every node of the other miner's trie is a node of
  the trie after the merge, so the receiver gains every longform path of the other miner
  that it lacked. \<^verbatim>\<open>compose\<close> of such miners returns a miner with the shortform of the
  first and with the nodes of all of them.
\<close>

theorem merge_ignores_shortform:
  assumes "reachable ext self" and "reachable ext adeft_miner"
    and "\<forall>miner \<in> set others. reachable ext miner"
  shows "(\<exists>m. update ext self adeft_miner = Inr m
            \<and> shortform m = shortform self
            \<and> (\<forall>q. node_at (internal_trie self) q \<noteq> None
                     \<or> node_at (internal_trie adeft_miner) q \<noteq> None
                   \<longrightarrow> node_at (internal_trie m) q \<noteq> None))
       \<and> (\<exists>m. compose ext (self # others) = Inr m
            \<and> shortform m = shortform self
            \<and> (\<forall>miner \<in> set (self # others). \<forall>q. node_at (internal_trie miner) q \<noteq> None
                   \<longrightarrow> node_at (internal_trie m) q \<noteq> None))"
proof -
  from update_inv[OF reachable_inv[OF assms(1)] reachable_inv[OF assms(2)], of ext] obtain m where
    m: "update ext self adeft_miner = Inr m"
    by blast
  have "\<exists>m. update ext self adeft_miner = Inr m
            \<and> shortform m = shortform self
            \<and> (\<forall>q. node_at (internal_trie self) q \<noteq> None
                     \<or> node_at (internal_trie adeft_miner) q \<noteq> None
                   \<longrightarrow> node_at (internal_trie m) q \<noteq> None)"
    using m update_paths[OF m] by blast
  moreover have "\<exists>m. compose ext (self # others) = Inr m
            \<and> shortform m = shortform self
            \<and> (\<forall>miner \<in> set (self # others). \<forall>q. node_at (internal_trie miner) q \<noteq> None
                   \<longrightarrow> node_at (internal_trie m) q \<noteq> None)"
    using update_all_merges[OF assms(1,3)] by (simp add: compose_def del: set_simps) blast
  ultimately show ?thesis by blast
qed

theorem merge_ignores_shortform_witness:
  "\<exists>receiver other.
      process_texts plain (AdeftMiner_init plain ''XX'' 100) [''a''] = Inr receiver
    \<and> process_texts plain (AdeftMiner_init plain ''YY'' 100) [''b''] = Inr other
    \<and> reachable plain receiver \<and> reachable plain other
    \<and> shortform receiver \<noteq> shortform other
    \<and> node_at (internal_trie receiver) [''b''] = None
    \<and> node_at (internal_trie other) [''b''] \<noteq> None
    \<and> (\<exists>m. update plain receiver other = Inr m
           \<and> shortform m = shortform receiver
           \<and> node_at (internal_trie m) [''b''] \<noteq> None)
    \<and> (\<exists>m. compose plain [receiver, other] = Inr m
           \<and> shortform m = shortform receiver
           \<and> node_at (internal_trie m) [''b''] \<noteq> None)"
proof -
  have run: "(case process_texts plain (AdeftMiner_init plain ''XX'' 100) [''a''] of
               Inl e \<Rightarrow> False
             | Inr receiver \<Rightarrow>
                (case process_texts plain (AdeftMiner_init plain ''YY'' 100) [''b''] of
                   Inl e \<Rightarrow> False
                 | Inr other \<Rightarrow>
                     shortform receiver \<noteq> shortform other
                     \<and> node_at (internal_trie receiver) [''b''] = None
                     \<and> node_at (internal_trie other) [''b''] \<noteq> None))"
    by code_simp
  then obtain receiver other where
    receiver: "process_texts plain (AdeftMiner_init plain ''XX'' 100) [''a''] = Inr receiver" and
    other: "process_texts plain (AdeftMiner_init plain ''YY'' 100) [''b''] = Inr other" and
    facts: "shortform receiver \<noteq> shortform other"
      "node_at (internal_trie receiver) [''b''] = None"
      "node_at (internal_trie other) [''b''] \<noteq> None"
    by (auto split: sum.splits)
  have r1: "reachable plain receiver"
    by (rule reachable.ingested[OF reachable.constructed receiver])
  have r2: "reachable plain other"
    by (rule reachable.ingested[OF reachable.constructed other])
  have r3: "\<forall>miner \<in> set [other]. reachable plain miner"
    using r2 by simp
  from merge_ignores_shortform[OF r1 r2 r3] obtain m1 m2 where
    m1: "update plain receiver other = Inr m1" "shortform m1 = shortform receiver"
      "\<And>q. node_at (internal_trie other) q \<noteq> None \<Longrightarrow> node_at (internal_trie m1) q \<noteq> None"
    and m2: "compose plain [receiver, other] = Inr m2" "shortform m2 = shortform receiver"
      "\<And>q. node_at (internal_trie other) q \<noteq> None \<Longrightarrow> node_at (internal_trie m2) q \<noteq> None"
    by (simp del: node_at.simps) blast
  have "\<exists>m. update plain receiver other = Inr m
           \<and> shortform m = shortform receiver
           \<and> node_at (internal_trie m) [''b''] \<noteq> None"
    using m1(1,2) m1(3)[OF facts(3)] by blast
  moreover have "\<exists>m. compose plain [receiver, other] = Inr m
           \<and> shortform m = shortform receiver
           \<and> node_at (internal_trie m) [''b''] \<noteq> None"
    using m2(1,2) m2(3)[OF facts(3)] by blast
  ultimately show ?thesis
    using receiver other r1 r2 facts by blast
qed


section \<open>The candidates that \<^verbatim>\<open>get_longforms\<close> returns\<close>

text \<open>
  \<open>subnodes\<close> lists a node and all the nodes below it. \<open>local_maximum sf m c\<close> says that the
  candidate \<open>c\<close> is the node \<open>m\<close> with its value under \<open>sf\<close>, and that no child of \<open>m\<close> has a
  larger value.
\<close>

function subnodes :: "'a node \<Rightarrow> 'a node list" where
  "subnodes node = node # concat (map (\<lambda>(token, child). subnodes child) (children node))"
  by pat_completeness auto
termination
proof (relation "measure size")
  show "wf (measure size)" by simp
next
  fix node :: "'a node" and x :: "string \<times> 'a node" and token child
  assume "x \<in> set (children node)" and "(token, child) = x"
  then have "(token, child) \<in> set (children node)" by simp
  then have "size child < size node"
    by (cases node) (auto simp: less_Suc_eq_le dest!: size_list_estimation'[where f = "size_prod (\<lambda>_. 0) size" and y = "size child"])
  then show "(child, node) \<in> measure size" by simp
qed

declare subnodes.simps [simp del]

lemma subnodes_self: "node \<in> set (subnodes node)"
  by (subst subnodes.simps) simp

lemma subnodes_child:
  "(token, child) \<in> set (children node) \<Longrightarrow> m \<in> set (subnodes child)
    \<Longrightarrow> m \<in> set (subnodes node)"
  by (subst subnodes.simps) force

lemma subnodes_cases:
  "m \<in> set (subnodes node) \<Longrightarrow>
     m = node \<or> (\<exists>token child. (token, child) \<in> set (children node) \<and> m \<in> set (subnodes child))"
  by (subst (asm) subnodes.simps) auto


declare get_longform_helper.simps [simp del]

lemma below_sound_subnodes:
  "below_sound node \<Longrightarrow> m \<in> set (subnodes node) \<Longrightarrow> below_sound m"
proof (induction node arbitrary: m rule: subnodes.induct)
  case (1 node)
  from subnodes_cases[OF "1.prems"(2)] show ?case
  proof
    assume "m = node"
    then show ?thesis using "1.prems"(1) by simp
  next
    assume "\<exists>token child. (token, child) \<in> set (children node) \<and> m \<in> set (subnodes child)"
    then obtain token child where
      child: "(token, child) \<in> set (children node)" and m: "m \<in> set (subnodes child)"
      by blast
    from "1.prems"(1) child have "map_of (children node) token = Some child"
      by (simp add: below_sound_def)
    from below_sound_child[OF "1.prems"(1) this] have "below_sound child" by simp
    from "1.IH"[OF child refl this m] show ?thesis .
  qed
qed

lemma subnodes_children_not_root:
  assumes "below_sound node" and "m \<in> set (subnodes node)" and "(token, child) \<in> set (children m)"
  shows "\<not> is_root child"
proof -
  from below_sound_subnodes[OF assms(1,2)] have b: "below_sound m" .
  with assms(3) have "map_of (children m) token = Some child"
    by (simp add: below_sound_def)
  from below_sound_child[OF b this] show ?thesis
    by (simp add: sound_def is_root_def)
qed

lemma get_longform_helper_nonempty:
  "get_longform_helper sf node = Inr result \<Longrightarrow> result \<noteq> []"
  by (subst (asm) get_longform_helper.simps) (auto split: if_splits sum.splits)

lemma keep_better_root: "keep_better True own cands = Inr cands"
  by (induction cands) auto

lemma keep_better_filter:
  "keep_better False (Inr (own, k)) cands = Inr (filter (\<lambda>(lf, sc, cnt). own < sc) cands)"
  by (induction cands) auto

lemma keep_better_own:
  "keep_better False own cands = Inr kept \<Longrightarrow> cands \<noteq> [] \<Longrightarrow> \<exists>v k. own = Inr (v, k)"
  by (cases cands; cases own) auto

lemma helper_children_results:
  assumes "helper_children sf node cs = Inr result"
  shows "\<exists>results. map (\<lambda>(token, child). get_longform_helper sf child) cs = map Inr results
      \<and> (is_root node \<longrightarrow> result = concat results)
      \<and> (\<not> is_root node \<longrightarrow> cs \<noteq> [] \<longrightarrow>
            (\<exists>own k. sf node = Inr (own, k)
               \<and> result = filter (\<lambda>(lf, sc, cnt). own < sc) (concat results)))"
  using assms
proof (induction cs arbitrary: result)
  case Nil
  then show ?case by simp
next
  case (Cons item cs)
  obtain token child where item: "item = (token, child)" by (cases item)
  from Cons.prems obtain child_longforms kept rest where
    child: "get_longform_helper sf child = Inr child_longforms" and
    kept: "keep_better (is_root node) (sf node) child_longforms = Inr kept" and
    rest: "helper_children sf node cs = Inr rest" and
    result: "result = kept @ rest"
    by (auto simp: item split: sum.splits)
  from Cons.IH[OF rest] obtain results where
    results: "map (\<lambda>(token, child). get_longform_helper sf child) cs = map Inr results" and
    at_root: "is_root node \<Longrightarrow> rest = concat results" and
    below: "\<not> is_root node \<Longrightarrow> cs \<noteq> [] \<Longrightarrow>
            \<exists>own k. sf node = Inr (own, k)
               \<and> rest = filter (\<lambda>(lf, sc, cnt). own < sc) (concat results)"
    by blast
  have all: "map (\<lambda>(token, child). get_longform_helper sf child) (item # cs)
      = map Inr (child_longforms # results)"
    by (simp add: item child results)
  have one: "is_root node \<Longrightarrow> result = concat (child_longforms # results)"
    using kept at_root result by (simp add: keep_better_root)
  have two: "\<exists>own k. sf node = Inr (own, k)
               \<and> result = filter (\<lambda>(lf, sc, cnt). own < sc) (concat (child_longforms # results))"
    if nr: "\<not> is_root node"
  proof -
    from kept nr have "keep_better False (sf node) child_longforms = Inr kept" by simp
    from keep_better_own[OF this get_longform_helper_nonempty[OF child]]
    obtain own k where own: "sf node = Inr (own, k)" by blast
    then have k: "kept = filter (\<lambda>(lf, sc, cnt). own < sc) child_longforms"
      using kept nr by (simp add: keep_better_filter)
    have "rest = filter (\<lambda>(lf, sc, cnt). own < sc) (concat results)"
    proof (cases "cs = []")
      case True
      then show ?thesis using rest results by simp
    next
      case False
      from below[OF nr False] own show ?thesis by simp
    qed
    with k own result show ?thesis by simp
  qed
  from all one two show ?case by blast
qed


definition local_maximum ::
  "('a node \<Rightarrow> error + (rat \<times> int)) \<Rightarrow> 'a node \<Rightarrow> string list \<times> rat \<times> int \<Rightarrow> bool" where
  "local_maximum sf m c =
     (case c of (lf, sc, cnt) \<Rightarrow>
        lf = longform (info m) \<and> sf m = Inr (sc, cnt)
        \<and> (\<forall>(token, child) \<in> set (children m). \<exists>v k. sf child = Inr (v, k) \<and> v \<le> sc))"

lemma candidates_local_maxima:
  assumes "\<forall>m \<in> set (subnodes node). \<forall>(token, child) \<in> set (children m). \<not> is_root child"
    and "get_longform_helper sf node = Inr result"
  shows "(\<forall>c \<in> set result. \<exists>m \<in> set (subnodes node). local_maximum sf m c)
     \<and> (\<not> is_root node \<longrightarrow>
          (\<exists>own k. sf node = Inr (own, k) \<and> (\<exists>(lf, sc, cnt) \<in> set result. own \<le> sc)))"
  using assms
proof (induction node arbitrary: result rule: subnodes.induct)
  case (1 node)
  note nonroot = "1.prems"(1) and res = "1.prems"(2)
  show ?case
  proof (cases "children node = []")
    case True
    from res True obtain sc cnt where own: "sf node = Inr (sc, cnt)"
      and result: "result = [(longform (info node), sc, cnt)]"
      by (subst (asm) get_longform_helper.simps) (auto split: sum.splits)
    have "local_maximum sf node (longform (info node), sc, cnt)"
      by (simp add: local_maximum_def own True)
    then show ?thesis
      using subnodes_self[of node] own by (auto simp: result)
  next
    case False
    from res False obtain r1 where hc: "helper_children sf node (children node) = Inr r1"
      and full: "r1 \<noteq> [] \<Longrightarrow> result = r1"
      and empty: "r1 = [] \<Longrightarrow> \<exists>sc cnt. sf node = Inr (sc, cnt)
                    \<and> result = [(longform (info node), sc, cnt)]"
      by (subst (asm) get_longform_helper.simps) (auto split: sum.splits if_splits)
    from helper_children_results[OF hc] obtain results where
      results: "map (\<lambda>(token, child). get_longform_helper sf child) (children node)
                  = map Inr results" and
      at_root: "is_root node \<Longrightarrow> r1 = concat results" and
      below: "\<not> is_root node \<Longrightarrow> \<exists>own k. sf node = Inr (own, k)
               \<and> r1 = filter (\<lambda>(lf, sc, cnt). own < sc) (concat results)"
      using False by blast
    from results have images: "(\<lambda>(token, child). get_longform_helper sf child) ` set (children node)
        = Inr ` set results"
      by (metis list.set_map)
    have kid: "\<exists>rs \<in> set results. get_longform_helper sf child = Inr rs"
      if "(token, child) \<in> set (children node)" for token child
    proof -
      from that have "get_longform_helper sf child
          \<in> (\<lambda>(token, child). get_longform_helper sf child) ` set (children node)"
        by force
      with images show ?thesis by auto
    qed
    have rs_kid: "\<exists>token child. (token, child) \<in> set (children node)
          \<and> get_longform_helper sf child = Inr rs"
      if "rs \<in> set results" for rs
    proof -
      from that images have "Inr rs
          \<in> (\<lambda>(token, child). get_longform_helper sf child) ` set (children node)"
        by blast
      then show ?thesis by force
    qed
    have ih: "(\<forall>c \<in> set rs. \<exists>m \<in> set (subnodes node). local_maximum sf m c)
        \<and> (\<exists>v k. sf child = Inr (v, k) \<and> (\<exists>(lf, sc, cnt) \<in> set rs. v \<le> sc))"
      if child: "(token, child) \<in> set (children node)"
        and rs: "get_longform_helper sf child = Inr rs" for token child rs
    proof -
      have below_child: "\<forall>m \<in> set (subnodes child). \<forall>(token, child) \<in> set (children m). \<not> is_root child"
        using nonroot subnodes_child[OF child] by blast
      have "\<not> is_root child"
        using nonroot subnodes_self[of node] child by blast
      with "1.IH"[OF child refl below_child rs] subnodes_child[OF child]
      show ?thesis by blast
    qed
    have from_below: "\<exists>m \<in> set (subnodes node). local_maximum sf m c"
      if "c \<in> set (concat results)" for c
    proof -
      from that obtain rs where rs: "rs \<in> set results" "c \<in> set rs" by auto
      from rs_kid[OF rs(1)] obtain token child where
        "(token, child) \<in> set (children node)" "get_longform_helper sf child = Inr rs"
        by blast
      from ih[OF this] rs(2) show ?thesis by blast
    qed
    have nonempty: "concat results \<noteq> []"
    proof -
      from False obtain token child where child: "(token, child) \<in> set (children node)"
        by (cases "children node") auto
      from kid[OF child] obtain rs where rs: "rs \<in> set results"
        "get_longform_helper sf child = Inr rs"
        by blast
      from get_longform_helper_nonempty[OF rs(2)] rs(1) show ?thesis by auto
    qed
    show ?thesis
    proof (cases "is_root node")
      case True
      with at_root nonempty full have "result = concat results" by simp
      with from_below True show ?thesis by simp
    next
      case nr: False
      from below[OF nr] obtain own k where own: "sf node = Inr (own, k)"
        and r1: "r1 = filter (\<lambda>(lf, sc, cnt). own < sc) (concat results)"
        by blast
      show ?thesis
      proof (cases "r1 = []")
        case True
        from empty[OF True] own have result: "result = [(longform (info node), own, k)]"
          by simp
        have "\<exists>v k. sf child = Inr (v, k) \<and> v \<le> own"
          if child: "(token, child) \<in> set (children node)" for token child
        proof -
          from kid[OF child] obtain rs where rs: "rs \<in> set results"
            "get_longform_helper sf child = Inr rs"
            by blast
          from ih[OF child rs(2)] obtain v k' lf sc cnt where
            v: "sf child = Inr (v, k')" and c: "(lf, sc, cnt) \<in> set rs" "v \<le> sc"
            by blast
          from c(1) rs(1) have "(lf, sc, cnt) \<in> set (concat results)" by auto
          with True r1 have "\<not> own < sc"
            by (auto simp: filter_empty_conv)
          with c(2) v show ?thesis by simp
        qed
        then have "local_maximum sf node (longform (info node), own, k)"
          by (auto simp: local_maximum_def own)
        then show ?thesis
          using subnodes_self[of node] own by (auto simp: result)
      next
        case False
        then have result: "result = r1" by (rule full)
        from False obtain c where c: "c \<in> set r1" by (cases r1) auto
        obtain lf sc cnt where c3: "c = (lf, sc, cnt)" by (cases c)
        from c r1 have "own < sc" by (simp add: c3)
        then have "\<exists>(lf, sc, cnt) \<in> set result. own \<le> sc"
          using c by (auto simp: result c3 intro!: bexI[of _ "(lf, sc, cnt)"])
        moreover have "\<forall>c \<in> set result. \<exists>m \<in> set (subnodes node). local_maximum sf m c"
          using from_below by (simp add: result r1)
        ultimately show ?thesis using own by blast
      qed
    qed
  qed
qed

lemma internal_node_candidates:
  assumes "children node \<noteq> []" and "\<not> is_root node"
    and "get_longform_helper sf node = Inr result"
  shows "\<exists>own k results. sf node = Inr (own, k)
      \<and> map (\<lambda>(token, child). get_longform_helper sf child) (children node) = map Inr results
      \<and> result = (if filter (\<lambda>(lf, sc, cnt). own < sc) (concat results) = []
                   then [(longform (info node), own, k)]
                   else filter (\<lambda>(lf, sc, cnt). own < sc) (concat results))"
proof -
  from assms(3,1) obtain r1 where hc: "helper_children sf node (children node) = Inr r1"
    and full: "r1 \<noteq> [] \<Longrightarrow> result = r1"
    and empty: "r1 = [] \<Longrightarrow> \<exists>sc cnt. sf node = Inr (sc, cnt)
                  \<and> result = [(longform (info node), sc, cnt)]"
    by (subst (asm) get_longform_helper.simps) (auto split: sum.splits if_splits)
  from helper_children_results[OF hc] assms(1,2) obtain results own k where
    results: "map (\<lambda>(token, child). get_longform_helper sf child) (children node)
                = map Inr results" and
    own: "sf node = Inr (own, k)" and
    r1: "r1 = filter (\<lambda>(lf, sc, cnt). own < sc) (concat results)"
    by blast
  have "result = (if r1 = [] then [(longform (info node), own, k)] else r1)"
    using full empty own by (cases "r1 = []") auto
  with results own show ?thesis unfolding r1 by blast
qed


lemma get_longform_helper_subnodes:
  "get_longform_helper sf node = Inr result \<Longrightarrow> m \<in> set (subnodes node)
    \<Longrightarrow> \<exists>r. get_longform_helper sf m = Inr r"
proof (induction node arbitrary: result m rule: subnodes.induct)
  case (1 node)
  from subnodes_cases[OF "1.prems"(2)] show ?case
  proof
    assume "m = node"
    then show ?thesis using "1.prems"(1) by blast
  next
    assume "\<exists>token child. (token, child) \<in> set (children node) \<and> m \<in> set (subnodes child)"
    then obtain token child where
      child: "(token, child) \<in> set (children node)" and m: "m \<in> set (subnodes child)"
      by blast
    then have "children node \<noteq> []" by auto
    with "1.prems"(1) obtain r1 where "helper_children sf node (children node) = Inr r1"
      by (subst (asm) get_longform_helper.simps) (auto split: sum.splits if_splits)
    from helper_children_results[OF this] obtain results where
      "map (\<lambda>(token, child). get_longform_helper sf child) (children node) = map Inr results"
      by blast
    then have "(\<lambda>(token, child). get_longform_helper sf child) ` set (children node)
        = Inr ` set results"
      by (metis list.set_map)
    moreover from child have "get_longform_helper sf child
          \<in> (\<lambda>(token, child). get_longform_helper sf child) ` set (children node)"
      by force
    ultimately obtain rs where "get_longform_helper sf child = Inr rs" by auto
    from "1.IH"[OF child refl this m] show ?thesis .
  qed
qed

lemma get_longforms_result:
  assumes "get_longforms ext self cutoff smoothing_param max_len use_abs abs_decay_param
             = Inr (found, self')"
  shows "\<exists>found0. get_longform_helper (score_func ext use_abs smoothing_param abs_decay_param)
                     (internal_trie self') = Inr found0
      \<and> (\<forall>(text, cnt, sc) \<in> set found.
            \<exists>lf. (lf, sc, cnt) \<in> set found0 \<and> text = make_readable ext self' lf)"
  using assms unfolding get_longforms_def Let_def
  by (auto split: sum.splits if_splits)

lemma node_at_subnodes: "node_at trie p = Some n \<Longrightarrow> n \<in> set (subnodes trie)"
proof (induction p arbitrary: trie)
  case Nil
  then show ?case by (simp add: subnodes_self)
next
  case (Cons t p)
  then obtain c where c: "map_of (children trie) t = Some c" and n: "node_at c p = Some n"
    by (auto split: option.splits)
  from subnodes_child[OF map_of_SomeD[OF c] Cons.IH[OF n]] show ?case .
qed


text \<open>
  Claim C5: every candidate that \<^verbatim>\<open>get_longforms\<close> returns comes from a node that is a leaf
  or whose children all have a blended value at most its own; and for an internal
  non-root node, \<^verbatim>\<open>_get_longform_helper\<close> returns the candidates of its children whose
  value strictly exceeds the node's own value, or the node alone when no candidate of its
  children passes that filter.

  The blended value of a node is the first component of \<^verbatim>\<open>score_func(node)\<close>. The theorem
  is about the miner \<open>self'\<close> as the call leaves it.
\<close>

theorem candidates_are_local_maxima:
  assumes "reachable ext self"
    and "get_longforms ext self cutoff smoothing_param max_len use_abs abs_decay_param
           = Inr (found, self')"
  shows "(\<forall>(text, cnt, sc) \<in> set found.
           \<exists>m \<in> set (subnodes (internal_trie self')).
              text = make_readable ext self' (longform (info m))
              \<and> score_func ext use_abs smoothing_param abs_decay_param m = Inr (sc, cnt)
              \<and> (children m = []
                   \<or> (\<forall>(token, child) \<in> set (children m).
                         \<exists>v k. score_func ext use_abs smoothing_param abs_decay_param child
                                 = Inr (v, k) \<and> v \<le> sc)))
       \<and> (\<forall>node \<in> set (subnodes (internal_trie self')).
            children node \<noteq> [] \<and> \<not> is_root node \<longrightarrow>
            (\<exists>own k results.
                score_func ext use_abs smoothing_param abs_decay_param node = Inr (own, k)
              \<and> map (\<lambda>(token, child).
                        get_longform_helper
                          (score_func ext use_abs smoothing_param abs_decay_param) child)
                    (children node) = map Inr results
              \<and> get_longform_helper (score_func ext use_abs smoothing_param abs_decay_param) node
                  = Inr (if filter (\<lambda>(lf, sc, cnt). own < sc) (concat results) = []
                         then [(longform (info node), own, k)]
                         else filter (\<lambda>(lf, sc, cnt). own < sc) (concat results))))"
proof -
  define sf where "sf = score_func ext use_abs smoothing_param abs_decay_param"
  from get_longforms_result[OF assms(2)] obtain found0 where
    found0: "get_longform_helper sf (internal_trie self') = Inr found0" and
    origin: "\<And>text cnt sc. (text, cnt, sc) \<in> set found \<Longrightarrow>
               \<exists>lf. (lf, sc, cnt) \<in> set found0 \<and> text = make_readable ext self' lf"
    unfolding sf_def by blast
  have "reachable ext self'" by (rule reachable.queried[OF assms])
  then have "below_sound (internal_trie self')"
    using reachable_inv by (auto simp: trie_inv_def)
  then have nonroot: "\<forall>m \<in> set (subnodes (internal_trie self')).
      \<forall>(token, child) \<in> set (children m). \<not> is_root child"
    using subnodes_children_not_root by blast
  from candidates_local_maxima[OF nonroot found0] have
    maxima: "\<And>c. c \<in> set found0
       \<Longrightarrow> \<exists>m \<in> set (subnodes (internal_trie self')). local_maximum sf m c"
    by blast
  have first: "\<exists>m \<in> set (subnodes (internal_trie self')).
              phrase = make_readable ext self' (longform (info m))
              \<and> sf m = Inr (sc, cnt)
              \<and> (children m = []
                   \<or> (\<forall>(token, child) \<in> set (children m).
                         \<exists>v k. sf child = Inr (v, k) \<and> v \<le> sc))"
    if "(phrase, cnt, sc) \<in> set found" for phrase cnt sc
  proof -
    from origin[OF that] obtain lf where lf: "(lf, sc, cnt) \<in> set found0"
      "phrase = make_readable ext self' lf"
      by blast
    from maxima[OF lf(1)] obtain m where "m \<in> set (subnodes (internal_trie self'))"
      "local_maximum sf m (lf, sc, cnt)"
      by blast
    then show ?thesis
      using lf(2) by (auto simp: local_maximum_def)
  qed
  have second: "\<exists>own k results. sf node = Inr (own, k)
      \<and> map (\<lambda>(token, child). get_longform_helper sf child) (children node) = map Inr results
      \<and> get_longform_helper sf node
          = Inr (if filter (\<lambda>(lf, sc, cnt). own < sc) (concat results) = []
                 then [(longform (info node), own, k)]
                 else filter (\<lambda>(lf, sc, cnt). own < sc) (concat results))"
    if "node \<in> set (subnodes (internal_trie self'))" "children node \<noteq> []" "\<not> is_root node"
    for node
  proof -
    from get_longform_helper_subnodes[OF found0 that(1)] obtain r where
      r: "get_longform_helper sf node = Inr r"
      by blast
    from internal_node_candidates[OF that(2,3) r] show ?thesis
      unfolding r by blast
  qed
  from first second show ?thesis
    unfolding sf_def by blast
qed

theorem candidates_are_local_maxima_witness:
  "\<exists>self found self' phrase cnt sc m node own k results.
      process_texts plain (AdeftMiner_init plain ''XX'' 100) (replicate 20 ''b a'' @ [''d a'', ''d a''])
        = Inr self
    \<and> reachable plain self
    \<and> get_longforms plain self (1 / 10) 4 Auto False (1 / 1000) = Inr (found, self')
    \<and> (phrase, cnt, sc) \<in> set found
    \<and> m \<in> set (subnodes (internal_trie self'))
    \<and> phrase = make_readable plain self' (longform (info m))
    \<and> score_func plain False 4 (1 / 1000) m = Inr (sc, cnt)
    \<and> (children m = []
         \<or> (\<forall>(token, child) \<in> set (children m).
               \<exists>v k. score_func plain False 4 (1 / 1000) child = Inr (v, k) \<and> v \<le> sc))
    \<and> node \<in> set (subnodes (internal_trie self'))
    \<and> children node \<noteq> [] \<and> \<not> is_root node
    \<and> score_func plain False 4 (1 / 1000) node = Inr (own, k)
    \<and> map (\<lambda>(token, child). get_longform_helper (score_func plain False 4 (1 / 1000)) child)
          (children node) = map Inr results
    \<and> get_longform_helper (score_func plain False 4 (1 / 1000)) node
        = Inr (if filter (\<lambda>(lf, sc, cnt). own < sc) (concat results) = []
               then [(longform (info node), own, k)]
               else filter (\<lambda>(lf, sc, cnt). own < sc) (concat results))"
proof -
  have run: "(case process_texts plain (AdeftMiner_init plain ''XX'' 100)
                     (replicate 20 ''b a'' @ [''d a'', ''d a'']) of
               Inl e \<Rightarrow> False
             | Inr self \<Rightarrow>
                (case get_longforms plain self (1 / 10) 4 Auto False (1 / 1000) of
                   Inl e \<Rightarrow> False
                 | Inr (found, self') \<Rightarrow>
                     found \<noteq> []
                     \<and> (case node_at (internal_trie self') [''a''] of
                           None \<Rightarrow> False
                         | Some node \<Rightarrow> children node \<noteq> [] \<and> \<not> is_root node)))"
    by code_simp
  then obtain self found self' node where
    self: "process_texts plain (AdeftMiner_init plain ''XX'' 100)
             (replicate 20 ''b a'' @ [''d a'', ''d a'']) = Inr self" and
    query: "get_longforms plain self (1 / 10) 4 Auto False (1 / 1000) = Inr (found, self')" and
    found: "found \<noteq> []" and
    node: "node_at (internal_trie self') [''a''] = Some node" "children node \<noteq> []"
      "\<not> is_root node"
    by (auto split: sum.splits option.splits simp del: node_at.simps)
  have r: "reachable plain self"
    by (rule reachable.ingested[OF reachable.constructed self])
  note all = candidates_are_local_maxima[OF r query]
  obtain phrase cnt sc where first: "(phrase, cnt, sc) \<in> set found"
    using found by (cases found) auto
  from all first obtain m where m: "m \<in> set (subnodes (internal_trie self'))"
    "phrase = make_readable plain self' (longform (info m))"
    "score_func plain False 4 (1 / 1000) m = Inr (sc, cnt)"
    "children m = []
       \<or> (\<forall>(token, child) \<in> set (children m).
             \<exists>v k. score_func plain False 4 (1 / 1000) child = Inr (v, k) \<and> v \<le> sc)"
    by blast
  have inside: "node \<in> set (subnodes (internal_trie self'))"
    by (rule node_at_subnodes[OF node(1)])
  from all inside node(2,3) obtain own k results where internal:
    "score_func plain False 4 (1 / 1000) node = Inr (own, k)"
    "map (\<lambda>(token, child). get_longform_helper (score_func plain False 4 (1 / 1000)) child)
          (children node) = map Inr results"
    "get_longform_helper (score_func plain False 4 (1 / 1000)) node
        = Inr (if filter (\<lambda>(lf, sc, cnt). own < sc) (concat results) = []
               then [(longform (info node), own, k)]
               else filter (\<lambda>(lf, sc, cnt). own < sc) (concat results))"
    by blast
  show ?thesis
    using self r query first m inside node(2,3) internal
    apply -
    apply (rule exI[of _ self], rule exI[of _ found], rule exI[of _ self'])
    apply (rule exI[of _ phrase], rule exI[of _ cnt], rule exI[of _ sc], rule exI[of _ m])
    apply (rule exI[of _ node], rule exI[of _ own], rule exI[of _ k], rule exI[of _ results])
    apply (intro conjI)
    apply assumption+
    done
qed

end
